theory Spec2Isabelle
  imports Main "HOL-Library.Word"
begin

unbundle bit_operations_syntax

section \<open>Data model\<close>

text \<open>
  The slave is the Arduino library \<^verbatim>\<open>SimpleModbusSlave\<close>: a receiver that frames one Modbus RTU
  request from the serial line, and a dispatcher that serves it from a table of 16-bit registers.
  Bytes are \<^verbatim>\<open>uint8_t\<close>, registers and the decoded header fields are \<^verbatim>\<open>uint16_t\<close>, and \<^verbatim>\<open>int\<close> is wider
  than 16 bits (the example hardware is an ESP32 driving \<^verbatim>\<open>Serial2\<close>), so that the sum of two
  \<^verbatim>\<open>uint16_t\<close> values does not wrap.
\<close>

type_synonym u8 = "8 word"
type_synonym u16 = "16 word"

text \<open>The macros of \<^verbatim>\<open>SimpleModbusSlave.h\<close> and of the implementation file (leading underscores
  dropped). They are C \<^verbatim>\<open>int\<close> constants; a byte compared with one of them is promoted first
  (\<open>unat\<close>).\<close>

definition MODBUS_BROADCAST_ADDRESS :: nat where
  [simp]: "MODBUS_BROADCAST_ADDRESS = 0"

definition MODBUS_EXCEPTION_ILLEGAL_FUNCTION :: nat where
  [simp]: "MODBUS_EXCEPTION_ILLEGAL_FUNCTION = 1"

definition MODBUS_EXCEPTION_ILLEGAL_DATA_ADDRESS :: nat where
  [simp]: "MODBUS_EXCEPTION_ILLEGAL_DATA_ADDRESS = 2"

definition MODBUS_EXCEPTION_ILLEGAL_DATA_VALUE :: nat where
  [simp]: "MODBUS_EXCEPTION_ILLEGAL_DATA_VALUE = 3"

definition MODBUS_RTU_SLAVE :: nat where
  [simp]: "MODBUS_RTU_SLAVE = 0"

definition MODBUS_RTU_FUNCTION :: nat where
  [simp]: "MODBUS_RTU_FUNCTION = 1"

definition MODBUS_RTU_PRESET_RSP_LENGTH :: nat where
  [simp]: "MODBUS_RTU_PRESET_RSP_LENGTH = 2"

definition MODBUS_RTU_CHECKSUM_LENGTH :: nat where
  [simp]: "MODBUS_RTU_CHECKSUM_LENGTH = 2"

definition MODBUSINO_RTU_MAX_ADU_LENGTH :: nat where
  [simp]: "MODBUSINO_RTU_MAX_ADU_LENGTH = 256"

definition FC_READ_HOLDING_REGISTERS :: nat where
  [simp]: "FC_READ_HOLDING_REGISTERS = 3"

definition FC_WRITE_MULTIPLE_REGISTERS :: nat where
  [simp]: "FC_WRITE_MULTIPLE_REGISTERS = 16"

datatype step = STEP_FUNCTION | STEP_META | STEP_DATA

text \<open>
  What the implementation file takes from outside: the checksum routines \<^verbatim>\<open>crc16\<close> and
  \<^verbatim>\<open>add_crc16\<close> (called, never defined), the two informative codes that the header does not
  declare, and the contents of the two stack buffers \<^verbatim>\<open>req\<close> and \<^verbatim>\<open>rsp\<close> before their first write
  (they are not initialised). \<open>crc16 env msg\<close> is the value of \<^verbatim>\<open>crc16(msg, msg_length)\<close> on the
  bytes \<open>msg\<close>; \<open>add_crc16 env msg\<close> is the pair of bytes that \<^verbatim>\<open>add_crc16(msg, msg_length)\<close>
  stores at \<^verbatim>\<open>msg[msg_length]\<close> and \<^verbatim>\<open>msg[msg_length + 1]\<close>.
\<close>

record extern =
  crc16 :: "u8 list \<Rightarrow> u16"
  add_crc16 :: "u8 list \<Rightarrow> u8 \<times> u8"
  MODBUS_INFORMATIVE_NOT_FOR_US :: int
  MODBUS_INFORMATIVE_RX_TIMEOUT :: int
  req_init :: "nat \<Rightarrow> u8"
  rsp_init :: "nat \<Rightarrow> u8"

text \<open>A 256-byte array: its cells, and the indices stored to, in order.\<close>

record buffer =
  cells :: "nat \<Rightarrow> u8"
  writes :: "nat list"

definition put :: "buffer \<Rightarrow> nat \<Rightarrow> u8 \<Rightarrow> buffer" where
  "put b i v = b\<lparr>cells := (cells b)(i := v), writes := writes b @ [i]\<rparr>"

definition bytes :: "buffer \<Rightarrow> nat \<Rightarrow> u8 list" where
  "bytes b n = map (cells b) [0..<n]"

text \<open>
  What the slave does to the serial port. \<open>Flush\<close> is one call of the static \<^verbatim>\<open>flush()\<close>;
  \<open>Write bs\<close> is one \<^verbatim>\<open>Serial2.write\<close> of the bytes \<open>bs\<close> (bracketed by the driver-enable pin);
  \<open>Overrun\<close> marks an access past the end of a 256-byte array, after which the behaviour of
  the C program is undefined and the model stops.
\<close>

datatype event = Flush | Write "u8 list" | Overrun

datatype access = Load nat | Store nat

section \<open>Framing helpers\<close>

definition check_integrity :: "extern \<Rightarrow> buffer \<Rightarrow> u8 \<Rightarrow> int" where
  "check_integrity env msg msg_length =
     (if unat msg_length \<ge> 2 \<and> crc16 env (bytes msg (unat msg_length)) = 0
      then int (unat msg_length) else - 1)"

definition build_response_basis :: "u8 \<Rightarrow> u8 \<Rightarrow> buffer \<Rightarrow> buffer \<times> u8" where
  "build_response_basis slave func rsp =
     (put (put rsp 0 slave) 1 func, of_nat MODBUS_RTU_PRESET_RSP_LENGTH)"

definition send_msg :: "extern \<Rightarrow> buffer \<Rightarrow> u8 \<Rightarrow> buffer \<times> event" where
  "send_msg env msg msg_length =
     (let n = unat msg_length;
          body = bytes msg n;
          c = add_crc16 env body
      in if n + 2 \<le> MODBUSINO_RTU_MAX_ADU_LENGTH
         then (put (put msg n (fst c)) (n + 1) (snd c), Write (body @ [fst c, snd c]))
         else (msg, Overrun))"

definition response_exception :: "u8 \<Rightarrow> u8 \<Rightarrow> nat \<Rightarrow> buffer \<Rightarrow> buffer \<times> u8" where
  "response_exception slave func exception_code rsp =
     (let (rsp1, rsp_length) = build_response_basis slave (func + 0x80) rsp
      in (put rsp1 (unat rsp_length) (of_nat exception_code), rsp_length + 1))"

section \<open>Frame receiver\<close>

text \<open>
  The local variables of \<^verbatim>\<open>receive\<close>. \<open>func\<close> is the variable \<^verbatim>\<open>function\<close>. The line is the list
  of the bytes that arrive, each within the per-byte timeout of the one before; when the list is
  exhausted the next byte does not come in time.
\<close>

record locals =
  step :: step
  length_to_read :: u8
  req_index :: u8
  func :: u8
  reqbuf :: buffer

record reception =
  rx_status :: int
  rx_req :: buffer
  rx_io :: "event list"

definition for_me :: "u8 \<Rightarrow> buffer \<Rightarrow> bool" where
  "for_me slave rq \<longleftrightarrow>
     cells rq MODBUS_RTU_SLAVE = slave \<or> unat (cells rq MODBUS_RTU_SLAVE) = MODBUS_BROADCAST_ADDRESS"

text \<open>
  The two rejection blocks of \<^verbatim>\<open>receive\<close> (unsupported function, oversized frame) are the same
  code up to the exception code handed to \<^verbatim>\<open>response_exception\<close> and the value returned after
  the response is sent; \<open>reject\<close> is that block, with both as arguments.
\<close>

definition reject :: "extern \<Rightarrow> u8 \<Rightarrow> locals \<Rightarrow> nat \<Rightarrow> int \<Rightarrow> reception" where
  "reject env slave s exception_code rc =
     (if for_me slave (reqbuf s)
      then (let (rsp, rsp_length) = response_exception slave (func s) exception_code (reqbuf s);
                (rsp', ev) = send_msg env rsp rsp_length
            in \<lparr>rx_status = rc, rx_req = rsp', rx_io = [Flush, ev]\<rparr>)
      else \<lparr>rx_status = - 1, rx_req = reqbuf s, rx_io = [Flush]\<rparr>)"

definition receive_byte :: "extern \<Rightarrow> u8 \<Rightarrow> locals \<Rightarrow> u8 \<Rightarrow> reception + locals" where
  "receive_byte env slave s b =
     (let s1 = s\<lparr>reqbuf := put (reqbuf s) (unat (req_index s)) b,
                 req_index := req_index s + 1,
                 length_to_read := length_to_read s - 1\<rparr>;
          rq = reqbuf s1
      in if length_to_read s1 = 0 then
           if cells rq MODBUS_RTU_SLAVE \<noteq> slave
              \<and> cells rq (if MODBUS_RTU_SLAVE \<noteq> MODBUS_BROADCAST_ADDRESS then 1 else 0) \<noteq> 0
           then Inl \<lparr>rx_status = - 1 - MODBUS_INFORMATIVE_NOT_FOR_US env, rx_req = rq,
                     rx_io = [Flush]\<rparr>
           else (case step s1 of
               STEP_FUNCTION \<Rightarrow>
                 (let s2 = s1\<lparr>func := cells rq MODBUS_RTU_FUNCTION\<rparr>
                  in if unat (func s2) = FC_READ_HOLDING_REGISTERS
                     then Inr (s2\<lparr>length_to_read := 4, step := STEP_META\<rparr>)
                     else if unat (func s2) = FC_WRITE_MULTIPLE_REGISTERS
                     then Inr (s2\<lparr>length_to_read := 5, step := STEP_META\<rparr>)
                     else Inl (reject env slave s2 MODBUS_EXCEPTION_ILLEGAL_FUNCTION
                                (- 1 - int MODBUS_EXCEPTION_ILLEGAL_FUNCTION)))
             | STEP_META \<Rightarrow>
                 (let l0 = of_nat MODBUS_RTU_CHECKSUM_LENGTH;
                      l = (if unat (func s1) = FC_WRITE_MULTIPLE_REGISTERS
                           then l0 + cells rq (MODBUS_RTU_FUNCTION + 5) else l0);
                      s2 = s1\<lparr>length_to_read := l\<rparr>
                  in if unat (req_index s2) + unat l > MODBUSINO_RTU_MAX_ADU_LENGTH
                     then Inl (reject env slave s2 MODBUS_EXCEPTION_ILLEGAL_DATA_VALUE
                                (- 1 - int MODBUS_EXCEPTION_ILLEGAL_FUNCTION))
                     else Inr (s2\<lparr>step := STEP_DATA\<rparr>))
             | STEP_DATA \<Rightarrow> Inr s1)
         else Inr s1)"

fun receive_loop :: "extern \<Rightarrow> u8 \<Rightarrow> locals \<Rightarrow> u8 list \<Rightarrow> reception" where
  "receive_loop env slave s [] =
     (if length_to_read s \<noteq> 0
      then \<lparr>rx_status = - 1 - MODBUS_INFORMATIVE_RX_TIMEOUT env, rx_req = reqbuf s, rx_io = []\<rparr>
      else \<lparr>rx_status = check_integrity env (reqbuf s) (req_index s), rx_req = reqbuf s,
            rx_io = []\<rparr>)"
| "receive_loop env slave s (b # line) =
     (if length_to_read s \<noteq> 0
      then (case receive_byte env slave s b of
              Inl r \<Rightarrow> r
            | Inr s' \<Rightarrow> receive_loop env slave s' line)
      else \<lparr>rx_status = check_integrity env (reqbuf s) (req_index s), rx_req = reqbuf s,
            rx_io = []\<rparr>)"

definition receive :: "extern \<Rightarrow> buffer \<Rightarrow> u8 \<Rightarrow> u8 list \<Rightarrow> reception" where
  "receive env rq slave line =
     receive_loop env slave
       \<lparr>step = STEP_FUNCTION, length_to_read = of_nat (MODBUS_RTU_FUNCTION + 1), req_index = 0,
        func = 0, reqbuf = rq\<rparr> line"

section \<open>Dispatcher\<close>

record dispatch =
  regs :: "nat \<Rightarrow> u16"
  touched :: "access list"
  wire :: "event list"

definition be16 :: "u8 \<Rightarrow> u8 \<Rightarrow> u16" where
  "be16 hi lo = push_bit 8 (ucast hi) + ucast lo"

function read_loop ::
  "(nat \<Rightarrow> u16) \<Rightarrow> nat \<Rightarrow> nat \<Rightarrow> buffer \<times> u8 \<times> access list \<Rightarrow> buffer \<times> u8 \<times> access list" where
  "read_loop tab_reg lim i (rsp, rsp_length, acc) =
     (if i < lim
      then read_loop tab_reg lim (Suc i)
             (put (put rsp (unat rsp_length) (ucast (drop_bit 8 (tab_reg i))))
                  (unat (rsp_length + 1)) (ucast (tab_reg i AND 0xFF)),
              rsp_length + 2, acc @ [Load i, Load i])
      else (rsp, rsp_length, acc))"
  by pat_completeness auto
termination
  by (relation "measure (\<lambda>(tab_reg, lim, i, st). lim - i)") auto

function write_loop ::
  "buffer \<Rightarrow> nat \<Rightarrow> nat \<Rightarrow> nat \<Rightarrow> (nat \<Rightarrow> u16) \<times> access list \<Rightarrow> bool \<times> (nat \<Rightarrow> u16) \<times> access list" where
  "write_loop rq lim i j (tab_reg, acc) =
     (if i < lim
      then (if MODBUS_RTU_FUNCTION + j + 1 < MODBUSINO_RTU_MAX_ADU_LENGTH
            then write_loop rq lim (Suc i) (j + 2)
                   (tab_reg(i := be16 (cells rq (MODBUS_RTU_FUNCTION + j))
                                      (cells rq (MODBUS_RTU_FUNCTION + j + 1))),
                    acc @ [Store i])
            else (False, tab_reg, acc))
      else (True, tab_reg, acc))"
  by pat_completeness auto
termination
  by (relation "measure (\<lambda>(rq, lim, i, j, st). lim - i)") auto

declare read_loop.simps [simp del]
declare write_loop.simps [simp del]

definition memcpy :: "buffer \<Rightarrow> buffer \<Rightarrow> nat \<Rightarrow> nat \<Rightarrow> buffer" where
  "memcpy dst src off n = fold (\<lambda>k d. put d (off + k) (cells src (off + k))) [0..<n] dst"

definition reply :: "extern \<Rightarrow> (nat \<Rightarrow> u16) \<Rightarrow> u16 \<Rightarrow> buffer \<Rightarrow> u8 \<Rightarrow> u8 \<Rightarrow> dispatch" where
  "reply env tab_reg nb_reg rq req_length slave_id =
     (let slave = cells rq MODBUS_RTU_SLAVE;
          fc = cells rq MODBUS_RTU_FUNCTION;
          address = be16 (cells rq (MODBUS_RTU_FUNCTION + 1)) (cells rq (MODBUS_RTU_FUNCTION + 2));
          nb = be16 (cells rq (MODBUS_RTU_FUNCTION + 3)) (cells rq (MODBUS_RTU_FUNCTION + 4));
          rsp = \<lparr>cells = rsp_init env, writes = []\<rparr>
      in if slave \<noteq> slave_id \<and> unat slave \<noteq> MODBUS_BROADCAST_ADDRESS
         then \<lparr>regs = tab_reg, touched = [], wire = []\<rparr>
         else if unat address + unat nb > unat nb_reg
         then (let (rsp1, rsp_length) =
                     response_exception slave fc MODBUS_EXCEPTION_ILLEGAL_DATA_ADDRESS rsp
               in \<lparr>regs = tab_reg, touched = [], wire = [snd (send_msg env rsp1 rsp_length)]\<rparr>)
         else if unat fc = FC_READ_HOLDING_REGISTERS
         then (let (rsp1, n1) = build_response_basis slave fc rsp;
                   rsp2 = put rsp1 (unat n1) (of_nat (2 * unat nb));
                   (rsp3, n3, acc) =
                     read_loop tab_reg (unat address + unat nb) (unat address) (rsp2, n1 + 1, [])
               in \<lparr>regs = tab_reg, touched = acc, wire = [snd (send_msg env rsp3 n3)]\<rparr>)
         else (case write_loop rq (unat address + unat nb) (unat address) 6 (tab_reg, []) of
                 (False, tab', acc) \<Rightarrow> \<lparr>regs = tab', touched = acc, wire = [Overrun]\<rparr>
               | (True, tab', acc) \<Rightarrow>
                   (let (rsp1, n1) = build_response_basis slave fc rsp;
                        rsp2 = memcpy rsp1 rq (unat n1) 4
                    in \<lparr>regs = tab', touched = acc,
                        wire = [snd (send_msg env rsp2 (n1 + 4))]\<rparr>)))"

section \<open>One cycle\<close>

record cycle =
  status :: int
  table :: "nat \<Rightarrow> u16"
  accesses :: "access list"
  serial :: "event list"
  request :: buffer

definition loop :: "extern \<Rightarrow> u8 \<Rightarrow> (nat \<Rightarrow> u16) \<Rightarrow> u16 \<Rightarrow> u8 list \<Rightarrow> cycle" where
  "loop env slave tab_reg nb_reg line =
     (let rq = \<lparr>cells = req_init env, writes = []\<rparr>
      in if line \<noteq> []
         then (let r = receive env rq slave line
               in if rx_status r > 0
                  then (let d = reply env tab_reg nb_reg (rx_req r) (of_int (rx_status r)) slave
                        in \<lparr>status = rx_status r, table = regs d, accesses = touched d,
                            serial = rx_io r @ wire d, request = rx_req r\<rparr>)
                  else \<lparr>status = rx_status r, table = tab_reg, accesses = [],
                        serial = rx_io r, request = rx_req r\<rparr>)
         else \<lparr>status = 0, table = tab_reg, accesses = [], serial = [], request = rq\<rparr>)"

section \<open>Vocabulary of the statements\<close>

text \<open>A 16-bit value as two bytes, most significant first, and back, in plain arithmetic.\<close>

definition be_encode :: "u16 \<Rightarrow> u8 list" where
  "be_encode w = [of_nat (unat w div 256), of_nat (unat w mod 256)]"

definition be_decode :: "u8 \<Rightarrow> u8 \<Rightarrow> nat" where
  "be_decode hi lo = 256 * unat hi + unat lo"

text \<open>A request buffer that got past the receiver's filters: it is addressed to this station
  or to everybody, and its function code is one of the two supported ones.\<close>

definition verified :: "u8 \<Rightarrow> buffer \<Rightarrow> bool" where
  "verified slave rq \<longleftrightarrow> for_me slave rq \<and> (cells rq 1 = 3 \<or> cells rq 1 = 16)"

text \<open>
  The invariant of the receive loop at its head. The bytes stored so far went to the indices
  \<open>0, 1, \<dots>\<close> in order, at most 256 of them; while something is left to read, \<^verbatim>\<open>req_index\<close> is
  their number and what is left still fits the array. Past the first step the buffer is
  \<open>verified\<close> and \<^verbatim>\<open>function\<close> holds its second byte.
\<close>

definition rinv :: "u8 \<Rightarrow> locals \<Rightarrow> bool" where
  "rinv slave s \<longleftrightarrow>
     writes (reqbuf s) = [0..<length (writes (reqbuf s))] \<and>
     length (writes (reqbuf s)) \<le> 256 \<and>
     (length_to_read s \<noteq> 0 \<longrightarrow>
        unat (req_index s) = length (writes (reqbuf s)) \<and>
        unat (req_index s) + unat (length_to_read s) \<le> 256) \<and>
     (case step s of
        STEP_FUNCTION \<Rightarrow>
          length_to_read s \<noteq> 0 \<and> unat (req_index s) + unat (length_to_read s) = 2
      | STEP_META \<Rightarrow>
          length_to_read s \<noteq> 0 \<and> 2 \<le> unat (req_index s) \<and>
          unat (req_index s) + unat (length_to_read s) \<le> 7 \<and>
          verified slave (reqbuf s) \<and> func s = cells (reqbuf s) 1
      | STEP_DATA \<Rightarrow>
          (length_to_read s \<noteq> 0 \<longrightarrow> 2 \<le> unat (req_index s)) \<and>
          verified slave (reqbuf s) \<and> func s = cells (reqbuf s) 1)"

text \<open>\<open>fill b i bs\<close> stores the bytes \<open>bs\<close> at the indices \<open>i, i + 1, \<dots>\<close> of \<open>b\<close>.\<close>

fun fill :: "buffer \<Rightarrow> nat \<Rightarrow> u8 list \<Rightarrow> buffer" where
  "fill b i [] = b"
| "fill b i (x # xs) = fill (put b i x) (Suc i) xs"

subsection \<open>A test bench\<close>

text \<open>
  Concrete stand-ins for what the implementation takes from outside, at which the theorems
  are evaluated on concrete frames. The checksum is the exclusive-or of the bytes, appended
  as that byte and a zero, so that a frame with its checksum appended sums to zero; the two
  informative codes are those of the comment that closes \<^verbatim>\<open>loop\<close> (statuses -6 and -7); the
  stack starts zeroed. The theorems themselves hold for every value of \<open>env\<close>.
\<close>

definition xor_sum :: "u8 list \<Rightarrow> u8" where
  "xor_sum msg = foldr (XOR) msg 0"

definition bench_crc16 :: "u8 list \<Rightarrow> u16" where
  "bench_crc16 msg = ucast (xor_sum msg)"

definition bench_add_crc16 :: "u8 list \<Rightarrow> u8 \<times> u8" where
  "bench_add_crc16 msg = (xor_sum msg, 0)"

definition zeroes :: "nat \<Rightarrow> u8" where
  "zeroes i = 0"

definition bench :: extern where
  "bench = \<lparr>crc16 = bench_crc16, add_crc16 = bench_add_crc16,
            MODBUS_INFORMATIVE_NOT_FOR_US = 5, MODBUS_INFORMATIVE_RX_TIMEOUT = 6,
            req_init = zeroes, rsp_init = zeroes\<rparr>"

text \<open>A register table with \<open>table[10] = 100\<close> and \<open>table[11] = 200\<close>, zero elsewhere.\<close>

definition tab0 :: "nat \<Rightarrow> u16" where
  "tab0 i = (if i = 10 then 100 else if i = 11 then 200 else 0)"

section \<open>Bytes and words\<close>

lemma cells_put [simp]: "cells (put b i v) = (cells b)(i := v)"
  by (simp add: put_def)

lemma writes_put [simp]: "writes (put b i v) = writes b @ [i]"
  by (simp add: put_def)

lemma bytes_put_ge: "m \<le> k \<Longrightarrow> bytes (put b k v) m = bytes b m"
  by (simp add: bytes_def)

lemma bytes_put_snoc: "bytes (put b m v) (Suc m) = bytes b m @ [v]"
  by (simp add: bytes_def)

lemma bytes_3: "bytes b 3 = [cells b 0, cells b 1, cells b 2]"
  by (simp add: bytes_def upt_rec numeral_eq_Suc)

lemma unat_u8_lt: "unat (x::u8) < 256"
  using unsigned_less[of x] by simp

lemma unat_u8_eq_3 [simp]: "unat (x::u8) = 3 \<longleftrightarrow> x = 3"
  by (simp add: word_unat_eq_iff)

lemma unat_u8_eq_16 [simp]: "unat (x::u8) = 16 \<longleftrightarrow> x = 16"
  by (simp add: word_unat_eq_iff)

lemma unat_minus_one_u8: "(l::u8) \<noteq> 0 \<Longrightarrow> unat (l - 1) = unat l - 1"
  by (simp add: unat_minus_one)

lemma unat_plus_one_u8: "unat (i::u8) < 255 \<Longrightarrow> unat (i + 1) = unat i + 1"
  by (simp add: unat_word_ariths)

lemma u8_nonzero: "(l::u8) \<noteq> 0 \<Longrightarrow> 0 < unat l"
  by (simp add: unat_gt_0)

lemma hi_byte: "(ucast (drop_bit 8 (w::u16)) :: u8) = of_nat (unat w div 256)"
  by (simp add: word_unat_eq_iff unsigned_ucast_eq unat_drop_bit_eq drop_bit_eq_div
      take_bit_eq_mod unat_of_nat unat_div_distrib)

lemma nat_and_255: "(n::nat) AND 255 = n mod 256"
proof -
  have "n AND mask 8 = n mod 256"
    by (simp add: take_bit_eq_mask[symmetric] take_bit_eq_mod)
  then show ?thesis by (simp add: mask_eq_exp_minus_1)
qed

lemma lo_byte: "(ucast ((w::u16) AND 0xFF) :: u8) = of_nat (unat w mod 256)"
  by (simp add: word_unat_eq_iff unsigned_ucast_eq unsigned_and_eq take_bit_eq_mod unat_of_nat
      nat_and_255)

lemma unat_be16: "unat (be16 hi lo) = be_decode hi lo"
  using unat_u8_lt[of hi] unat_u8_lt[of lo]
  by (simp add: be16_def be_decode_def unat_word_ariths unsigned_push_bit_eq unsigned_ucast_eq
      take_bit_eq_mod push_bit_eq_mult)

lemma plus_0x80_low: "(f::u8) < 0x80 \<Longrightarrow> f + 0x80 = f OR 0x80"
proof (rule disjunctive_add_eq_or)
  assume "f < 0x80"
  then have "unat f < 128" by (simp add: word_less_nat_alt)
  then have "\<not> bit (unat f) 7" by (simp add: bit_iff_odd)
  then have "unat f AND 128 = 0"
    using and_exp_eq_0_iff_not_bit[of "unat f" 7] by simp
  then show "f AND 0x80 = 0"
    by (simp add: word_unat_eq_iff unsigned_and_eq)
qed

lemma plus_0x80_high: "\<not> (f::u8) < 0x80 \<Longrightarrow> f + 0x80 \<noteq> f OR 0x80"
proof -
  assume "\<not> f < 0x80"
  then have a: "128 \<le> unat f" by (simp add: word_less_nat_alt)
  have "unat (f + 0x80) = (unat f + 128) mod 256" by (simp add: unat_word_ariths)
  also have "\<dots> = unat f - 128" using a unat_u8_lt[of f]
    by (simp add: mod_if)
  finally have "unat (f + 0x80) < 128" using unat_u8_lt[of f] by simp
  moreover have "f \<le> f OR 0x80" by (rule le_word_or2)
  then have "128 \<le> unat (f OR 0x80)" using a by (simp add: word_le_nat_alt)
  ultimately show ?thesis by auto
qed

section \<open>The framing helpers, unfolded\<close>

lemma response_exception_eq:
  "response_exception slave f c rsp =
     (put (put (put rsp 0 slave) 1 (f + 0x80)) 2 (of_nat c), 3)"
  by (simp add: response_exception_def build_response_basis_def)

lemma send_msg_3:
  "send_msg env b 3 =
     (put (put b 3 (fst (add_crc16 env (bytes b 3)))) 4 (snd (add_crc16 env (bytes b 3))),
      Write (bytes b 3 @ [fst (add_crc16 env (bytes b 3)), snd (add_crc16 env (bytes b 3))]))"
  by (simp add: send_msg_def Let_def)

section \<open>The receive loop keeps its invariant\<close>

lemma rinv_step:
  assumes I: "rinv slave s" and L: "length_to_read s \<noteq> 0"
    and R: "receive_byte env slave s b = Inr s'"
  shows "rinv slave s'"
proof -
  define k where "k = unat (req_index s)"
  define l where "l = unat (length_to_read s)"
  have l1: "1 \<le> l" using L by (simp add: l_def u8_nonzero Suc_leI)
  have kw: "writes (reqbuf s) = [0..<k]" "k + l \<le> 256" "length (writes (reqbuf s)) = k"
    using I L by (simp_all add: rinv_def k_def l_def)
  have l': "unat (length_to_read s - 1) = l - 1"
    using L by (simp add: l_def unat_minus_one_u8)
  show ?thesis
  proof (cases "length_to_read s - 1 = 0")
    case False
    then have "2 \<le> l" using l' l1 by (metis One_nat_def Suc_1 Suc_leI diff_is_0_eq' le_neq_implies_less unat_eq_0 not_less_eq_eq)
    then have k': "unat (req_index s + 1) = k + 1"
      using kw by (simp add: k_def unat_plus_one_u8)
    from False R have s': "s' = s\<lparr>reqbuf := put (reqbuf s) k b, req_index := req_index s + 1,
          length_to_read := length_to_read s - 1\<rparr>"
      by (simp add: receive_byte_def Let_def k_def)
    show ?thesis
      using I L False k' l' kw \<open>2 \<le> l\<close>
      apply (simp add: s' rinv_def k_def[symmetric] l_def[symmetric] verified_def for_me_def split: step.splits)
      done
  next
    case True
    then have l1': "l = 1" using l' l1 by (simp add: unat_eq_0[symmetric] del: unat_eq_0)
    have k255: "k \<le> 255" using kw l1 by simp
    define rq where "rq = put (reqbuf s) k b"
    have wr: "writes rq = [0..<Suc k]" by (simp add: rq_def kw)
    have km: "unat (req_index s + 1) = Suc k mod 256"
      by (simp add: k_def unat_word_ariths)
    show ?thesis
    proof (cases "step s")
      case STEP_FUNCTION
      then have k1: "k = 1" using I l1' by (simp add: rinv_def k_def l_def)
      show ?thesis
        using R True STEP_FUNCTION I L kw k1
        apply (simp add: receive_byte_def Let_def k_def[symmetric] split: if_splits)
        apply (auto simp: rinv_def verified_def for_me_def reject_def k_def[symmetric] unat_word_ariths)
        done
    next
      case STEP_META
      then have k2: "2 \<le> k" "k \<le> 6" using I L l1' by (simp_all add: rinv_def k_def l_def)
      then have k1: "unat (req_index s + 1) = Suc k" using km by simp
      have V: "verified slave (reqbuf s)" "func s = cells (reqbuf s) 1"
        using I STEP_META by (simp_all add: rinv_def)
      have u: "[0..<6] @ [6] = [0..<7::nat]" "[0..<5] @ [5] = [0..<6::nat]"
        by (simp_all add: upt_rec)
      show ?thesis
        using R True STEP_META L kw k2 k1 V
        apply (simp add: receive_byte_def Let_def k_def[symmetric] split: if_splits)
        apply (auto simp: rinv_def verified_def for_me_def u)
        done
    next
      case STEP_DATA
      then have k2: "2 \<le> k" using I L by (simp_all add: rinv_def k_def l_def)
      have V: "verified slave (reqbuf s)" "func s = cells (reqbuf s) 1"
        using I STEP_DATA by (simp_all add: rinv_def)
      show ?thesis
        using R True STEP_DATA L kw k2 k255 V
        apply (simp add: receive_byte_def Let_def k_def[symmetric] split: if_splits)
        apply (auto simp: rinv_def verified_def for_me_def)
        done
    qed
  qed
qed


lemma reject_nonpos: "rc \<le> 0 \<Longrightarrow> rx_status (reject env slave s c rc) \<le> 0"
  by (simp add: reject_def split_def Let_def)

lemma early_return_nonpos:
  assumes "receive_byte env slave s b = Inl r"
    and "- 1 \<le> MODBUS_INFORMATIVE_NOT_FOR_US env"
  shows "rx_status r \<le> 0"
proof -
  have "rx_status r = - 1 - MODBUS_INFORMATIVE_NOT_FOR_US env
      \<or> (\<exists>s2 c. r = reject env slave s2 c (- 2))"
    using assms(1)
    by (auto simp add: receive_byte_def Let_def simp del: fun_upd_apply cells_put
        split: if_splits step.splits)
  then show ?thesis
    using assms(2) reject_nonpos[of "- 2" env slave] by auto
qed

lemma receive_loop_verified:
  assumes "rinv slave s"
    and "- 1 \<le> MODBUS_INFORMATIVE_NOT_FOR_US env" "- 1 \<le> MODBUS_INFORMATIVE_RX_TIMEOUT env"
    and "rx_status (receive_loop env slave s line) > 0"
  shows "verified slave (rx_req (receive_loop env slave s line))
       \<and> rx_io (receive_loop env slave s line) = []"
  using assms
proof (induction line arbitrary: s)
  case Nil
  then show ?case
    by (auto simp: rinv_def split: if_splits step.splits)
next
  case (Cons b line)
  show ?case
  proof (cases "length_to_read s = 0")
    case True
    with Cons.prems show ?thesis by (auto simp: rinv_def split: step.splits)
  next
    case False
    show ?thesis
    proof (cases "receive_byte env slave s b")
      case (Inl r)
      with Cons.prems False early_return_nonpos[OF Inl] show ?thesis by simp
    next
      case (Inr s')
      have "rinv slave s'" using rinv_step[OF Cons.prems(1) False Inr] .
      with Cons.IH[of s'] Cons.prems False Inr show ?thesis by simp
    qed
  qed
qed


section \<open>Register transfer in the dispatcher\<close>

lemma read_loop_spec:
  "unat n + 2 * (lim - i) \<le> 255 \<Longrightarrow>
   read_loop tab lim i (rsp, n, acc) = (rsp', n', acc') \<Longrightarrow>
   unat n' = unat n + 2 * (lim - i) \<and>
   bytes rsp' (unat n') = bytes rsp (unat n) @ concat (map (\<lambda>j. be_encode (tab j)) [i..<lim]) \<and>
   acc' = acc @ concat (map (\<lambda>j. [Load j, Load j]) [i..<lim])"
proof (induction tab lim i "(rsp, n, acc)" arbitrary: rsp n acc rule: read_loop.induct)
  case (1 tab lim i rsp n acc)
  show ?case
  proof (cases "i < lim")
    case False
    with "1.prems" show ?thesis by (simp add: read_loop.simps)
  next
    case True
    then have b: "unat n \<le> 253" using "1.prems"(1) by simp
    then have n1: "unat (n + 1) = Suc (unat n)" and n2: "unat (n + 2) = Suc (Suc (unat n))"
      by (simp_all add: unat_word_ariths)
    define rsp2 where "rsp2 = put (put rsp (unat n) (ucast (drop_bit 8 (tab i))))
                  (unat (n + 1)) (ucast (tab i AND 0xFF))"
    have r: "read_loop tab lim (Suc i) (rsp2, n + 2, acc @ [Load i, Load i]) = (rsp', n', acc')"
      using "1.prems"(2) True by (simp add: read_loop.simps[of tab lim i] rsp2_def)
    have pre: "unat (n + 2) + 2 * (lim - Suc i) \<le> 255"
      using "1.prems"(1) True n2 by simp
    have by2: "bytes rsp2 (unat (n + 2)) = bytes rsp (unat n) @ be_encode (tab i)"
      by (simp add: rsp2_def n1 n2 bytes_put_snoc bytes_put_ge be_encode_def hi_byte lo_byte)
    have IH: "unat n' = unat (n + 2) + 2 * (lim - Suc i) \<and>
       bytes rsp' (unat n') = bytes rsp2 (unat (n + 2)) @ concat (map (\<lambda>j. be_encode (tab j)) [Suc i..<lim]) \<and>
       acc' = (acc @ [Load i, Load i]) @ concat (map (\<lambda>j. [Load j, Load j]) [Suc i..<lim])"
      using "1.hyps" True pre r unfolding rsp2_def by blast
    have u: "[i..<lim] = i # [Suc i..<lim]" using True by (simp add: upt_conv_Cons)
    have d: "2 * (lim - i) = Suc (Suc (2 * (lim - Suc i)))" using True by simp
    from IH have i1: "unat n' = unat (n + 2) + 2 * (lim - Suc i)"
      and i2: "bytes rsp' (unat n') =
        bytes rsp2 (unat (n + 2)) @ concat (map (\<lambda>j. be_encode (tab j)) [Suc i..<lim])"
      and i3: "acc' = (acc @ [Load i, Load i]) @ concat (map (\<lambda>j. [Load j, Load j]) [Suc i..<lim])"
      by blast+
    from i1 have "unat n' = unat n + 2 * (lim - i)" using n2 d by simp
    moreover from i2 have "bytes rsp' (unat n') =
        bytes rsp (unat n) @ concat (map (\<lambda>j. be_encode (tab j)) [i..<lim])"
      by (simp add: by2 u)
    moreover from i3 have "acc' = acc @ concat (map (\<lambda>j. [Load j, Load j]) [i..<lim])"
      by (simp add: u)
    ultimately show ?thesis by blast
  qed
qed

lemma read_loop_regs_length:
  "read_loop tab lim i (rsp, n, acc) = (rsp', n', acc') \<Longrightarrow> n' = n + of_nat (2 * (lim - i))"
proof (induction tab lim i "(rsp, n, acc)" arbitrary: rsp n acc rule: read_loop.induct)
  case (1 tab lim i rsp n acc)
  show ?case
  proof (cases "i < lim")
    case False
    with "1.prems" show ?thesis by (simp add: read_loop.simps)
  next
    case True
    define rsp2 where "rsp2 = put (put rsp (unat n) (ucast (drop_bit 8 (tab i))))
                  (unat (n + 1)) (ucast (tab i AND 0xFF))"
    have r: "read_loop tab lim (Suc i) (rsp2, n + 2, acc @ [Load i, Load i]) = (rsp', n', acc')"
      using "1.prems"(1) True by (simp add: read_loop.simps[of tab lim i] rsp2_def)
    have IH: "n' = (n + 2) + of_nat (2 * (lim - Suc i))"
      using "1.hyps" True r unfolding rsp2_def by blast
    have "lim - i = Suc (lim - Suc i)" using True by simp
    then show ?thesis using IH by simp
  qed
qed

lemma write_loop_spec:
  "j + 2 * (lim - i) \<le> 255 \<Longrightarrow>
   write_loop rq lim i j (tab, acc) =
     (True,
      (\<lambda>x. if i \<le> x \<and> x < lim
           then be16 (cells rq (j + 1 + 2 * (x - i))) (cells rq (j + 2 + 2 * (x - i)))
           else tab x),
      acc @ map Store [i..<lim])"
proof (induction rq lim i j "(tab, acc)" arbitrary: tab acc rule: write_loop.induct)
  case (1 rq lim i j tab acc)
  show ?case
  proof (cases "i < lim")
    case False
    then show ?thesis by (auto simp add: write_loop.simps fun_eq_iff)
  next
    case True
    then have j: "j + 2 < 256" using "1.prems" by simp
    have pre: "(j + 2) + 2 * (lim - Suc i) \<le> 255" using "1.prems" True by simp
    have u: "[i..<lim] = i # [Suc i..<lim]" using True by (simp add: upt_conv_Cons)
    have IH: "write_loop rq lim (Suc i) (j + 2)
         (tab(i := be16 (cells rq (MODBUS_RTU_FUNCTION + j)) (cells rq (MODBUS_RTU_FUNCTION + j + 1))),
          acc @ [Store i]) =
       (True,
        (\<lambda>x. if Suc i \<le> x \<and> x < lim
           then be16 (cells rq ((j + 2) + 1 + 2 * (x - Suc i))) (cells rq ((j + 2) + 2 + 2 * (x - Suc i)))
           else (tab(i := be16 (cells rq (MODBUS_RTU_FUNCTION + j)) (cells rq (MODBUS_RTU_FUNCTION + j + 1)))) x),
        (acc @ [Store i]) @ map Store [Suc i..<lim])"
      using "1.hyps"[OF True _ pre] j by simp
    have f: "(\<lambda>x. if Suc i \<le> x \<and> x < lim
           then be16 (cells rq ((j + 2) + 1 + 2 * (x - Suc i))) (cells rq ((j + 2) + 2 + 2 * (x - Suc i)))
           else (tab(i := be16 (cells rq (MODBUS_RTU_FUNCTION + j)) (cells rq (MODBUS_RTU_FUNCTION + j + 1)))) x)
       = (\<lambda>x. if i \<le> x \<and> x < lim
           then be16 (cells rq (j + 1 + 2 * (x - i))) (cells rq (j + 2 + 2 * (x - i)))
           else tab x)"
    proof
      fix x
      show "(if Suc i \<le> x \<and> x < lim
           then be16 (cells rq ((j + 2) + 1 + 2 * (x - Suc i))) (cells rq ((j + 2) + 2 + 2 * (x - Suc i)))
           else (tab(i := be16 (cells rq (MODBUS_RTU_FUNCTION + j)) (cells rq (MODBUS_RTU_FUNCTION + j + 1)))) x)
       = (if i \<le> x \<and> x < lim
           then be16 (cells rq (j + 1 + 2 * (x - i))) (cells rq (j + 2 + 2 * (x - i)))
           else tab x)"
      proof (cases "Suc i \<le> x")
        case True
        then have "2 * (x - i) = 2 + 2 * (x - Suc i)" by simp
        with True show ?thesis by simp
      next
        case False
        with \<open>i < lim\<close> show ?thesis by (cases "x = i") auto
      qed
    qed
    show ?thesis
      using True j IH by (simp add: write_loop.simps[of rq lim i j] f u)
  qed
qed

lemma write_loop_overrun:
  "i < lim \<Longrightarrow> 255 < j + 2 * (lim - i) \<Longrightarrow> fst (write_loop rq lim i j (tab, acc)) = False"
proof (induction rq lim i j "(tab, acc)" arbitrary: tab acc rule: write_loop.induct)
  case (1 rq lim i j tab acc)
  show ?case
  proof (cases "MODBUS_RTU_FUNCTION + j + 1 < MODBUSINO_RTU_MAX_ADU_LENGTH")
    case False
    with "1.prems" show ?thesis by (simp add: write_loop.simps[of rq lim i j])
  next
    case True
    then have "j \<le> 253" by simp
    with "1.prems" have "Suc i < lim" by simp
    moreover have "255 < (j + 2) + 2 * (lim - Suc i)" using "1.prems" by simp
    ultimately have "fst (write_loop rq lim (Suc i) (j + 2)
         (tab(i := be16 (cells rq (MODBUS_RTU_FUNCTION + j)) (cells rq (MODBUS_RTU_FUNCTION + j + 1))),
          acc @ [Store i])) = False"
      using "1.hyps"[OF "1.prems"(1) True] by blast
    then show ?thesis
      using True "1.prems"(1) by (simp add: write_loop.simps[of rq lim i j])
  qed
qed


section \<open>The dispatcher, case by case\<close>

lemma reply_foreign:
  "cells rq 0 \<noteq> slave \<Longrightarrow> cells rq 0 \<noteq> 0 \<Longrightarrow>
   reply env tab nb_reg rq len slave = \<lparr>regs = tab, touched = [], wire = []\<rparr>"
  by (simp add: reply_def Let_def unat_eq_0)

lemma reply_address_exception:
  assumes "for_me slave rq"
    and "be_decode (cells rq 2) (cells rq 3) + be_decode (cells rq 4) (cells rq 5) > unat nb_reg"
  shows "reply env tab nb_reg rq len slave =
     \<lparr>regs = tab, touched = [],
      wire = [Write ([cells rq 0, cells rq 1 + 0x80, 2] @
                [fst (add_crc16 env [cells rq 0, cells rq 1 + 0x80, 2]),
                 snd (add_crc16 env [cells rq 0, cells rq 1 + 0x80, 2])])]\<rparr>"
  using assms
  by (auto simp add: reply_def Let_def for_me_def unat_be16 response_exception_eq send_msg_3 bytes_3
      numeral_2_eq_2[symmetric] numeral_3_eq_3[symmetric])

lemma reply_read:
  assumes F: "for_me slave rq" and R: "cells rq 1 = 3"
    and st: "start = be_decode (cells rq 2) (cells rq 3)"
    and ct: "count = be_decode (cells rq 4) (cells rq 5)"
    and B: "start + count \<le> unat nb_reg" and C: "count \<le> 125"
    and bd: "body = [cells rq 0, 3, of_nat (2 * count)] @
                   concat (map (\<lambda>i. be_encode (tab i)) [start..<start + count])"
  shows "reply env tab nb_reg rq len slave =
     \<lparr>regs = tab, touched = concat (map (\<lambda>i. [Load i, Load i]) [start..<start + count]),
      wire = [Write (body @ [fst (add_crc16 env body), snd (add_crc16 env body)])]\<rparr>"
proof -
  define rsp2 where "rsp2 = put (put (put \<lparr>cells = rsp_init env, writes = []\<rparr> 0 (cells rq 0)) 1 3) 2
      (of_nat (2 * count) :: u8)"
  obtain rsp3 n3 acc where rl: "read_loop tab (start + count) start (rsp2, 3, []) = (rsp3, n3, acc)"
    by (cases "read_loop tab (start + count) start (rsp2, 3, [])") auto
  have "unat (3::u8) + 2 * (start + count - start) \<le> 255" using C by simp
  note rs = read_loop_spec[OF this rl, simplified]
  have n3: "unat n3 = 3 + 2 * count"
    and b3: "bytes rsp3 (unat n3) = bytes rsp2 3 @ concat (map (\<lambda>j. be_encode (tab j)) [start..<start + count])"
    and a3: "acc = concat (map (\<lambda>j. [Load j, Load j]) [start..<start + count])"
    using rs by blast+
  have b2: "bytes rsp2 3 = [cells rq 0, 3, of_nat (2 * count)]"
    by (simp add: bytes_3 rsp2_def)
  have body: "bytes rsp3 (3 + 2 * count) = body" using b3 by (simp add: n3 b2 bd)
  have snd: "snd (send_msg env rsp3 n3) = Write (body @ [fst (add_crc16 env body), snd (add_crc16 env body)])"
    using C by (simp add: send_msg_def Let_def n3 body)
  have nf: "\<not> (cells rq 0 \<noteq> slave \<and> unat (cells rq 0) \<noteq> 0)"
    using F by (auto simp: for_me_def)
  have fold: "put (put (put \<lparr>cells = rsp_init env, writes = []\<rparr> 0 (cells rq 0)) (Suc 0) 3) 2
      (2 * of_nat count) = rsp2"
    by (simp add: rsp2_def)
  show ?thesis
    using nf B R
    by (simp add: reply_def Let_def unat_be16 numeral_2_eq_2[symmetric] numeral_3_eq_3[symmetric]
        st[symmetric] ct[symmetric] build_response_basis_def fold rl snd a3)
qed


lemma read_loop_touched:
  "read_loop tab lim i (rsp, n, acc) = (rsp', n', acc') \<Longrightarrow>
   acc' = acc @ concat (map (\<lambda>j. [Load j, Load j]) [i..<lim])"
proof (induction tab lim i "(rsp, n, acc)" arbitrary: rsp n acc rule: read_loop.induct)
  case (1 tab lim i rsp n acc)
  show ?case
  proof (cases "i < lim")
    case False
    with "1.prems" show ?thesis by (simp add: read_loop.simps)
  next
    case True
    define rsp2 where "rsp2 = put (put rsp (unat n) (ucast (drop_bit 8 (tab i))))
                  (unat (n + 1)) (ucast (tab i AND 0xFF))"
    have r: "read_loop tab lim (Suc i) (rsp2, n + 2, acc @ [Load i, Load i]) = (rsp', n', acc')"
      using "1.prems"(1) True by (simp add: read_loop.simps[of tab lim i] rsp2_def)
    have IH: "acc' = (acc @ [Load i, Load i]) @ concat (map (\<lambda>j. [Load j, Load j]) [Suc i..<lim])"
      using "1.hyps" True r unfolding rsp2_def by blast
    have u: "[i..<lim] = i # [Suc i..<lim]" using True by (simp add: upt_conv_Cons)
    show ?thesis using IH by (simp add: u)
  qed
qed

lemma bytes_6: "bytes b 6 = [cells b 0, cells b 1, cells b 2, cells b 3, cells b 4, cells b 5]"
  by (simp add: bytes_def upt_rec numeral_eq_Suc)

lemma memcpy_4:
  "memcpy dst src 2 4 =
     put (put (put (put dst 2 (cells src 2)) 3 (cells src 3)) 4 (cells src 4)) 5 (cells src 5)"
  by (simp add: memcpy_def upt_rec numeral_eq_Suc)

lemma reply_write:
  assumes F: "for_me slave rq" and W: "cells rq 1 \<noteq> 3"
    and st: "start = be_decode (cells rq 2) (cells rq 3)"
    and ct: "count = be_decode (cells rq 4) (cells rq 5)"
    and B: "start + count \<le> unat nb_reg" and C: "count \<le> 124"
    and bd: "body = [cells rq 0, cells rq 1, cells rq 2, cells rq 3, cells rq 4, cells rq 5]"
  shows "reply env tab nb_reg rq len slave =
     \<lparr>regs = (\<lambda>x. if start \<le> x \<and> x < start + count
                   then be16 (cells rq (7 + 2 * (x - start))) (cells rq (8 + 2 * (x - start)))
                   else tab x),
      touched = map Store [start..<start + count],
      wire = [Write (body @ [fst (add_crc16 env body), snd (add_crc16 env body)])]\<rparr>"
proof -
  have "6 + 2 * (start + count - start) \<le> 255" using C by simp
  note wl0 = write_loop_spec[OF this, of rq tab "[]"]
  have wl: "write_loop rq (start + count) start 6 (tab, []) =
     (True,
      (\<lambda>x. if start \<le> x \<and> x < start + count
           then be16 (cells rq (7 + 2 * (x - start))) (cells rq (8 + 2 * (x - start)))
           else tab x),
      map Store [start..<start + count])"
    unfolding wl0 by (auto simp: fun_eq_iff)
  define rsp2 where "rsp2 = memcpy (put (put \<lparr>cells = rsp_init env, writes = []\<rparr> 0 (cells rq 0)) 1 (cells rq 1)) rq 2 4"
  have b2: "bytes rsp2 6 = body"
    by (simp add: rsp2_def memcpy_4 bytes_6 bd)
  have snd: "snd (send_msg env rsp2 6) = Write (body @ [fst (add_crc16 env body), snd (add_crc16 env body)])"
    by (simp add: send_msg_def Let_def b2)
  have nf: "\<not> (cells rq 0 \<noteq> slave \<and> unat (cells rq 0) \<noteq> 0)"
    using F by (auto simp: for_me_def)
  have fold: "memcpy (put (put \<lparr>cells = rsp_init env, writes = []\<rparr> 0 (cells rq 0)) (Suc 0) (cells rq (Suc 0))) rq 2 4 = rsp2"
    by (simp add: rsp2_def)
  show ?thesis
    using nf B W
    by (simp add: reply_def Let_def unat_be16 numeral_2_eq_2[symmetric] numeral_3_eq_3[symmetric]
        st[symmetric] ct[symmetric] build_response_basis_def wl fold snd)
qed

lemma reply_write_overrun:
  assumes F: "for_me slave rq" and W: "cells rq 1 \<noteq> 3"
    and st: "start = be_decode (cells rq 2) (cells rq 3)"
    and ct: "count = be_decode (cells rq 4) (cells rq 5)"
    and B: "start + count \<le> unat nb_reg" and C: "125 \<le> count"
  shows "wire (reply env tab nb_reg rq len slave) = [Overrun]"
proof -
  have "start < start + count" "255 < 6 + 2 * (start + count - start)" using C by simp_all
  from write_loop_overrun[OF this, of rq tab "[]"]
  obtain tab' acc where wl: "write_loop rq (start + count) start 6 (tab, []) = (False, tab', acc)"
    by (cases "write_loop rq (start + count) start 6 (tab, [])") auto
  have nf: "\<not> (cells rq 0 \<noteq> slave \<and> unat (cells rq 0) \<noteq> 0)"
    using F by (auto simp: for_me_def)
  show ?thesis
    using nf B W
    by (simp add: reply_def Let_def unat_be16 numeral_2_eq_2[symmetric] numeral_3_eq_3[symmetric]
        st[symmetric] ct[symmetric] wl)
qed

lemma reply_read_keeps_table:
  assumes R: "cells rq 1 = 3"
  shows "regs (reply env tab nb_reg rq len slave) = tab
       \<and> (\<forall>i. Store i \<notin> set (touched (reply env tab nb_reg rq len slave)))"
proof -
  define start where "start = be_decode (cells rq 2) (cells rq 3)"
  define count where "count = be_decode (cells rq 4) (cells rq 5)"
  define rsp2 where "rsp2 = put (put (put \<lparr>cells = rsp_init env, writes = []\<rparr> 0 (cells rq 0)) 1 3) 2
      (of_nat (2 * count) :: u8)"
  obtain rsp3 n3 acc where rl: "read_loop tab (start + count) start (rsp2, 3, []) = (rsp3, n3, acc)"
    by (cases "read_loop tab (start + count) start (rsp2, 3, [])") auto
  have a3: "acc = concat (map (\<lambda>j. [Load j, Load j]) [start..<start + count])"
    using read_loop_touched[OF rl] by simp
  have fold: "put (put (put \<lparr>cells = rsp_init env, writes = []\<rparr> 0 (cells rq 0)) (Suc 0) 3) 2
      (2 * of_nat count) = rsp2"
    by (simp add: rsp2_def)
  show ?thesis
    using R
    by (auto simp add: reply_def Let_def unat_be16 numeral_2_eq_2[symmetric] numeral_3_eq_3[symmetric]
        start_def[symmetric] count_def[symmetric] build_response_basis_def fold rl a3
        response_exception_eq)
qed

lemma reply_read_length:
  assumes F: "for_me slave rq" and R: "cells rq 1 = 3"
    and ct: "count = be_decode (cells rq 4) (cells rq 5)"
    and B: "be_decode (cells rq 2) (cells rq 3) + count \<le> unat nb_reg"
    and N: "n = unat (3 + of_nat (2 * count) :: u8)" "n \<le> 254"
  shows "\<exists>bs. wire (reply env tab nb_reg rq len slave) = [Write bs] \<and> length bs = n + 2"
proof -
  define start where "start = be_decode (cells rq 2) (cells rq 3)"
  define rsp2 where "rsp2 = put (put (put \<lparr>cells = rsp_init env, writes = []\<rparr> 0 (cells rq 0)) 1 3) 2
      (of_nat (2 * count) :: u8)"
  obtain rsp3 n3 acc where rl: "read_loop tab (start + count) start (rsp2, 3, []) = (rsp3, n3, acc)"
    by (cases "read_loop tab (start + count) start (rsp2, 3, [])") auto
  have n3: "n3 = 3 + of_nat (2 * count)"
    using read_loop_regs_length[OF rl] by simp
  have fold: "put (put (put \<lparr>cells = rsp_init env, writes = []\<rparr> 0 (cells rq 0)) (Suc 0) 3) 2
      (2 * of_nat count) = rsp2"
    by (simp add: rsp2_def)
  have nf: "\<not> (cells rq 0 \<noteq> slave \<and> unat (cells rq 0) \<noteq> 0)"
    using F by (auto simp: for_me_def)
  have "snd (send_msg env rsp3 n3) =
      Write (bytes rsp3 n @ [fst (add_crc16 env (bytes rsp3 n)), snd (add_crc16 env (bytes rsp3 n))])"
    using N by (simp add: send_msg_def Let_def n3)
  moreover have "length (bytes rsp3 n) = n" by (simp add: bytes_def)
  ultimately show ?thesis
    using nf B R
    by (simp add: reply_def Let_def unat_be16 numeral_2_eq_2[symmetric] numeral_3_eq_3[symmetric]
        start_def[symmetric] ct[symmetric] build_response_basis_def fold rl)
qed


section \<open>Reception of a complete frame\<close>

lemma receive_loop_done:
  "length_to_read s = 0 \<Longrightarrow>
   receive_loop env slave s line =
     \<lparr>rx_status = check_integrity env (reqbuf s) (req_index s), rx_req = reqbuf s, rx_io = []\<rparr>"
  by (cases line) simp_all

lemma data_phase:
  assumes "step s = STEP_DATA"
    and "length_to_read s = of_nat (length bs)"
    and "bs \<noteq> [] \<longrightarrow> 1 \<le> unat (req_index s) \<and> unat (req_index s) + length bs \<le> 256"
    and "cells (reqbuf s) 0 = slave \<or> cells (reqbuf s) 0 = 0"
  shows "receive_loop env slave s (bs @ rest) =
     \<lparr>rx_status = check_integrity env (fill (reqbuf s) (unat (req_index s)) bs)
                    (req_index s + of_nat (length bs)),
      rx_req = fill (reqbuf s) (unat (req_index s)) bs, rx_io = []\<rparr>"
  using assms
proof (induction bs arbitrary: s)
  case Nil
  then show ?case by (simp add: receive_loop_done)
next
  case (Cons b bs)
  define k where "k = unat (req_index s)"
  have k: "1 \<le> k" "k + Suc (length bs) \<le> 256" using Cons.prems(3) by (simp_all add: k_def)
  have "unat (of_nat (Suc (length bs)) :: u8) = Suc (length bs) mod 256"
    by (simp only: unat_of_nat) simp
  then have l: "unat (length_to_read s) = Suc (length bs)"
    using Cons.prems(2) k by simp
  then have l0: "length_to_read s \<noteq> 0" by auto
  have l1: "length_to_read s - 1 = of_nat (length bs)"
    using Cons.prems(2) by simp
  define s1 where "s1 = s\<lparr>reqbuf := put (reqbuf s) k b, req_index := req_index s + 1,
      length_to_read := length_to_read s - 1\<rparr>"
  have c0: "cells (reqbuf s1) 0 = cells (reqbuf s) 0" using k by (simp add: s1_def)
  have rb: "receive_byte env slave s b = Inr s1"
    using Cons.prems(1,4) c0
    by (auto simp add: receive_byte_def Let_def s1_def k_def simp del: cells_put)
  have idx: "bs \<noteq> [] \<Longrightarrow> unat (req_index s + 1) = Suc k"
    using k by (cases bs) (simp_all add: k_def unat_plus_one_u8)
  have p3: "bs \<noteq> [] \<longrightarrow> 1 \<le> unat (req_index s1) \<and> unat (req_index s1) + length bs \<le> 256"
    using idx k by (simp add: s1_def)
  have IH: "receive_loop env slave s1 (bs @ rest) =
     \<lparr>rx_status = check_integrity env (fill (reqbuf s1) (unat (req_index s1)) bs)
                    (req_index s1 + of_nat (length bs)),
      rx_req = fill (reqbuf s1) (unat (req_index s1)) bs, rx_io = []\<rparr>"
    using Cons.IH[of s1] Cons.prems(1,4) l1 p3 c0 by (simp add: s1_def)
  have f: "fill (reqbuf s1) (unat (req_index s1)) bs = fill (reqbuf s) k (b # bs)"
    using idx by (cases "bs = []") (simp_all add: s1_def)
  have n: "req_index s1 + of_nat (length bs) = req_index s + of_nat (length (b # bs))"
    by (simp add: s1_def)
  show ?case
    using l0 rb IH by (simp add: f n k_def[symmetric])
qed

lemma bytes_fill_below: "m \<le> i \<Longrightarrow> bytes (fill b i xs) m = bytes b m"
  by (induction xs arbitrary: b i) (simp_all add: bytes_put_ge)

lemma bytes_fill: "bytes (fill b i xs) (i + length xs) = bytes b i @ xs"
proof (induction xs arbitrary: b i)
  case Nil
  then show ?case by simp
next
  case (Cons x xs)
  have "bytes (fill (put b i x) (Suc i) xs) (Suc i + length xs) = bytes (put b i x) (Suc i) @ xs"
    by (rule Cons.IH)
  then show ?case by (simp add: bytes_put_snoc)
qed

lemma fill_append: "fill b i (ys @ zs) = fill (fill b i ys) (i + length ys) zs"
  by (induction ys arbitrary: b i) simp_all

lemma bytes_fill_take: "n \<le> length xs \<Longrightarrow> bytes (fill b 0 xs) n = take n xs"
proof -
  assume n: "n \<le> length xs"
  have "fill b 0 xs = fill b 0 (take n xs @ drop n xs)" by simp
  also have "\<dots> = fill (fill b 0 (take n xs)) n (drop n xs)"
    using n by (simp only: fill_append) simp
  finally have "bytes (fill b 0 xs) n = bytes (fill b 0 (take n xs)) n"
    by (simp add: bytes_fill_below)
  also have "\<dots> = take n xs"
    using bytes_fill[of b 0 "take n xs"] n by (simp add: bytes_def)
  finally show ?thesis .
qed

lemma fill_7:
  "fill rq 0 [x0, x1, x2, x3, x4, x5, x6] =
     put (put (put (put (put (put (put rq 0 x0) 1 x1) 2 x2) 3 x3) 4 x4) 5 x5) 6 x6"
  by (simp add: eval_nat_numeral)

lemma fill_8:
  "fill rq 0 [x0, x1, x2, x3, x4, x5, x6, x7] =
     put (put (put (put (put (put (put (put rq 0 x0) 1 x1) 2 x2) 3 x3) 4 x4) 5 x5) 6 x6) 7 x7"
  by (simp add: eval_nat_numeral)

lemma receive_read_frame:
  assumes "a = slave \<or> a = 0"
  shows "receive env rq slave ([a, 3, b2, b3, b4, b5, c1, c2] @ rest) =
     \<lparr>rx_status = check_integrity env (fill rq 0 [a, 3, b2, b3, b4, b5, c1, c2]) 8,
      rx_req = fill rq 0 [a, 3, b2, b3, b4, b5, c1, c2], rx_io = []\<rparr>"
  using assms
  by (auto simp add: receive_def receive_byte_def Let_def receive_loop_done fill_8
      simp del: fill.simps)


lemma receive_write_frame:
  assumes A: "a = slave \<or> a = 0"
    and L: "length tail = unat (2 + bc)" and M: "7 + unat (2 + bc) \<le> 256"
    and F: "frame = a # 16 # b2 # b3 # b4 # b5 # bc # tail"
  shows "receive env rq slave (frame @ rest) =
     \<lparr>rx_status = check_integrity env (fill rq 0 frame) (of_nat (length frame)),
      rx_req = fill rq 0 frame, rx_io = []\<rparr>"
proof -
  define s where "s = \<lparr>step = STEP_DATA, length_to_read = 2 + bc, req_index = 7, func = 16,
      reqbuf = fill rq 0 [a, 16, b2, b3, b4, b5, bc]\<rparr>"
  have hd: "receive env rq slave (frame @ rest) = receive_loop env slave s (tail @ rest)"
    using A M
    by (auto simp add: F receive_def receive_byte_def Let_def s_def fill_7 simp del: fill.simps)
  have "receive_loop env slave s (tail @ rest) =
     \<lparr>rx_status = check_integrity env (fill (reqbuf s) (unat (req_index s)) tail)
                    (req_index s + of_nat (length tail)),
      rx_req = fill (reqbuf s) (unat (req_index s)) tail, rx_io = []\<rparr>"
  proof (rule data_phase)
    show "step s = STEP_DATA" by (simp add: s_def)
    show "length_to_read s = of_nat (length tail)" by (simp add: s_def L)
    show "tail \<noteq> [] \<longrightarrow> 1 \<le> unat (req_index s) \<and> unat (req_index s) + length tail \<le> 256"
      using M L by (simp add: s_def)
    show "cells (reqbuf s) 0 = slave \<or> cells (reqbuf s) 0 = 0"
      using A by (auto simp add: s_def fill_7 simp del: fill.simps)
  qed
  moreover have "fill (reqbuf s) (unat (req_index s)) tail = fill rq 0 frame"
  proof -
    have "(7::nat) = 0 + length [a, 16, b2, b3, b4, b5, bc]" by simp
    then have "fill (fill rq 0 [a, 16, b2, b3, b4, b5, bc]) 7 tail =
        fill rq 0 ([a, 16, b2, b3, b4, b5, bc] @ tail)"
      by (simp only: fill_append)
    then show ?thesis by (simp add: s_def F del: fill.simps)
  qed
  moreover have "req_index s + of_nat (length tail) = of_nat (length frame)"
    by (simp add: s_def F)
  ultimately show ?thesis using hd by simp
qed

section \<open>One cycle, from the receiver to the dispatcher\<close>

lemma rinv_initial:
  "writes rq = [] \<Longrightarrow>
   rinv slave \<lparr>step = STEP_FUNCTION, length_to_read = 2, req_index = 0, func = 0, reqbuf = rq\<rparr>"
  by (simp add: rinv_def)

lemma receive_verified:
  assumes "writes rq = []"
    and "- 1 \<le> MODBUS_INFORMATIVE_NOT_FOR_US env" "- 1 \<le> MODBUS_INFORMATIVE_RX_TIMEOUT env"
    and "rx_status (receive env rq slave line) > 0"
  shows "verified slave (rx_req (receive env rq slave line)) \<and> rx_io (receive env rq slave line) = []"
  using receive_loop_verified[OF rinv_initial[OF assms(1)] assms(2,3)] assms(4)
  by (simp add: receive_def)

lemma loop_dispatched:
  assumes "0 < status (loop env slave tab nb_reg line)"
  shows "loop env slave tab nb_reg line =
     (let r = receive env \<lparr>cells = req_init env, writes = []\<rparr> slave line;
          d = reply env tab nb_reg (rx_req r) (of_int (rx_status r)) slave
      in \<lparr>status = rx_status r, table = regs d, accesses = touched d,
          serial = rx_io r @ wire d, request = rx_req r\<rparr>)"
  using assms by (auto simp add: loop_def Let_def split: if_splits)

lemma loop_verified:
  assumes N: "0 \<le> MODBUS_INFORMATIVE_NOT_FOR_US env" "0 \<le> MODBUS_INFORMATIVE_RX_TIMEOUT env"
    and P: "0 < status (loop env slave tab nb_reg line)"
    and C: "c = loop env slave tab nb_reg line"
  shows "verified slave (request c)"
    and "\<exists>len. table c = regs (reply env tab nb_reg (request c) len slave)
            \<and> accesses c = touched (reply env tab nb_reg (request c) len slave)
            \<and> serial c = wire (reply env tab nb_reg (request c) len slave)"
proof -
  define r where "r = receive env \<lparr>cells = req_init env, writes = []\<rparr> slave line"
  have c: "c = (let d = reply env tab nb_reg (rx_req r) (of_int (rx_status r)) slave
      in \<lparr>status = rx_status r, table = regs d, accesses = touched d,
          serial = rx_io r @ wire d, request = rx_req r\<rparr>)"
    using loop_dispatched[OF P] by (simp add: C r_def Let_def)
  then have "0 < rx_status r" using P C by (simp add: Let_def)
  then have v: "verified slave (rx_req r) \<and> rx_io r = []"
    using receive_verified[of "\<lparr>cells = req_init env, writes = []\<rparr>" env slave line] N
    by (simp add: r_def)
  show "verified slave (request c)" using v c by (simp add: Let_def)
  show "\<exists>len. table c = regs (reply env tab nb_reg (request c) len slave)
            \<and> accesses c = touched (reply env tab nb_reg (request c) len slave)
            \<and> serial c = wire (reply env tab nb_reg (request c) len slave)"
    using v c by (auto simp add: Let_def)
qed

lemma bench_simps:
  "crc16 bench = bench_crc16" "add_crc16 bench = bench_add_crc16"
  "MODBUS_INFORMATIVE_NOT_FOR_US bench = 5" "MODBUS_INFORMATIVE_RX_TIMEOUT bench = 6"
  "req_init bench = zeroes" "rsp_init bench = zeroes"
  by (simp_all add: bench_def)

lemma frame_status_read:
  assumes "a = slave \<or> a = 0" and "frame = [a, 3, b2, b3, b4, b5, c1, c2]"
  shows "receive env rq slave (frame @ rest) =
     \<lparr>rx_status = (if crc16 env frame = 0 then 8 else - 1),
      rx_req = fill rq 0 frame, rx_io = []\<rparr>"
proof -
  have "bytes (fill rq 0 frame) 8 = frame"
    using bytes_fill_take[of 8 frame rq] by (simp add: assms(2))
  then show ?thesis
    using receive_read_frame[OF assms(1), of env rq b2 b3 b4 b5 c1 c2 rest]
    by (simp add: assms(2) check_integrity_def del: fill.simps)
qed

lemma frame_status_write:
  assumes "a = slave \<or> a = 0"
    and "length tail = unat (2 + bc)" and "7 + unat (2 + bc) \<le> 256"
    and "frame = a # 16 # b2 # b3 # b4 # b5 # bc # tail"
    and "n = length frame mod 256"
  shows "receive env rq slave (frame @ rest) =
     \<lparr>rx_status = (if 2 \<le> n \<and> crc16 env (take n frame) = 0 then int n else - 1),
      rx_req = fill rq 0 frame, rx_io = []\<rparr>"
proof -
  have n: "unat (of_nat (length frame) :: u8) = n"
    by (simp only: unat_of_nat assms(5)) simp
  have "n \<le> length frame" by (simp add: assms(5))
  then have "bytes (fill rq 0 frame) n = take n frame"
    by (rule bytes_fill_take)
  then show ?thesis
    using receive_write_frame[OF assms(1-4), of env rq rest]
    by (simp add: check_integrity_def n del: fill.simps)
qed

lemma loop_frame:
  assumes "receive env \<lparr>cells = req_init env, writes = []\<rparr> slave line =
             \<lparr>rx_status = st, rx_req = rq, rx_io = []\<rparr>"
    and "line \<noteq> []"
  shows "loop env slave tab nb_reg line =
     (if st > 0
      then \<lparr>status = st, table = regs (reply env tab nb_reg rq (of_int st) slave),
            accesses = touched (reply env tab nb_reg rq (of_int st) slave),
            serial = wire (reply env tab nb_reg rq (of_int st) slave), request = rq\<rparr>
      else \<lparr>status = st, table = tab, accesses = [], serial = [], request = rq\<rparr>)"
  using assms by (simp add: loop_def Let_def)

section \<open>The test bench, evaluated\<close>

lemma bench_read_cycle:
  "loop bench 5 tab nb_reg [5, 3, 0, 10, 0, 2, 0x0E, 0] =
     \<lparr>status = 8,
      table = regs (reply bench tab nb_reg (fill \<lparr>cells = zeroes, writes = []\<rparr> 0 [5, 3, 0, 10, 0, 2, 0x0E, 0]) 8 5),
      accesses = touched (reply bench tab nb_reg (fill \<lparr>cells = zeroes, writes = []\<rparr> 0 [5, 3, 0, 10, 0, 2, 0x0E, 0]) 8 5),
      serial = wire (reply bench tab nb_reg (fill \<lparr>cells = zeroes, writes = []\<rparr> 0 [5, 3, 0, 10, 0, 2, 0x0E, 0]) 8 5),
      request = fill \<lparr>cells = zeroes, writes = []\<rparr> 0 [5, 3, 0, 10, 0, 2, 0x0E, 0]\<rparr>"
proof -
  have "receive bench \<lparr>cells = req_init bench, writes = []\<rparr> 5 ([5, 3, 0, 10, 0, 2, 0x0E, 0] @ []) =
     \<lparr>rx_status = (if crc16 bench [5, 3, 0, 10, 0, 2, 0x0E, 0] = 0 then 8 else - 1),
      rx_req = fill \<lparr>cells = req_init bench, writes = []\<rparr> 0 [5, 3, 0, 10, 0, 2, 0x0E, 0], rx_io = []\<rparr>"
    by (rule frame_status_read) simp_all
  then have "receive bench \<lparr>cells = req_init bench, writes = []\<rparr> 5 [5, 3, 0, 10, 0, 2, 0x0E, 0] =
     \<lparr>rx_status = 8,
      rx_req = fill \<lparr>cells = zeroes, writes = []\<rparr> 0 [5, 3, 0, 10, 0, 2, 0x0E, 0], rx_io = []\<rparr>"
    by (simp add: bench_simps bench_crc16_def xor_sum_def del: fill.simps)
  from loop_frame[OF this] show ?thesis by (simp del: fill.simps)
qed


section \<open>Rejections in the first step\<close>

lemma illegal_function_receive:
  assumes "f \<noteq> 3" "f \<noteq> 16" "a = slave \<or> a = 0"
  shows "rx_status (receive env rq slave (a # f # rest)) = - 2 \<and>
         rx_io (receive env rq slave (a # f # rest)) =
           [Flush, Write ([slave, f + 0x80, 1] @
              [fst (add_crc16 env [slave, f + 0x80, 1]), snd (add_crc16 env [slave, f + 0x80, 1])])]"
  using assms
  by (auto simp add: receive_def receive_byte_def Let_def reject_def for_me_def
      response_exception_eq send_msg_3 bytes_3)

lemma foreign_receive:
  assumes "a \<noteq> slave" "a \<noteq> 0"
  shows "receive env rq slave (a # f # rest) =
     \<lparr>rx_status = - 1 - MODBUS_INFORMATIVE_NOT_FOR_US env, rx_req = put (put rq 0 a) 1 f,
      rx_io = [Flush]\<rparr>"
  using assms
  by (simp add: receive_def receive_byte_def Let_def)

lemma timeout_receive_1:
  "receive env rq slave [a] =
     \<lparr>rx_status = - 1 - MODBUS_INFORMATIVE_RX_TIMEOUT env, rx_req = put rq 0 a, rx_io = []\<rparr>"
  by (simp add: receive_def receive_byte_def Let_def)

lemma loop_foreign:
  assumes "a \<noteq> slave" "a \<noteq> 0"
  shows "status (loop env slave tab nb_reg (a # f # rest)) = - 1 - MODBUS_INFORMATIVE_NOT_FOR_US env"
    and "serial (loop env slave tab nb_reg (a # f # rest)) = [Flush]"
    and "table (loop env slave tab nb_reg (a # f # rest)) = tab"
    and "accesses (loop env slave tab nb_reg (a # f # rest)) = []"
    and "serial (loop env slave tab nb_reg [a]) = []"
    and "table (loop env slave tab nb_reg [a]) = tab"
  using assms
  by (simp_all add: loop_def Let_def foreign_receive timeout_receive_1 reply_foreign)

lemma loop_illegal_function:
  assumes "f \<noteq> 3" "f \<noteq> 16" "a = slave \<or> a = 0"
  shows "status (loop env slave tab nb_reg (a # f # rest)) = - 2"
    and "serial (loop env slave tab nb_reg (a # f # rest)) =
           [Flush, Write ([slave, f + 0x80, 1] @
              [fst (add_crc16 env [slave, f + 0x80, 1]), snd (add_crc16 env [slave, f + 0x80, 1])])]"
    and "table (loop env slave tab nb_reg (a # f # rest)) = tab"
  using illegal_function_receive[OF assms, of env "\<lparr>cells = req_init env, writes = []\<rparr>" rest]
  by (simp_all add: loop_def Let_def)

section \<open>Contents and write log of a received frame\<close>

lemma cells_fill:
  "cells (fill b i xs) k = (if i \<le> k \<and> k < i + length xs then xs ! (k - i) else cells b k)"
proof (induction xs arbitrary: b i k)
  case Nil
  then show ?case by auto
next
  case (Cons x xs)
  show ?case
  proof (cases "k = i")
    case True
    then show ?thesis by (simp add: Cons.IH)
  next
    case False
    then show ?thesis by (auto simp add: Cons.IH nth_Cons')
  qed
qed

lemma writes_fill: "writes (fill b i xs) = writes b @ [i..<i + length xs]"
proof (induction xs arbitrary: b i)
  case Nil
  then show ?case by simp
next
  case (Cons x xs)
  have "i < Suc i + length xs" by simp
  then have u: "[i..<Suc i + length xs] = i # [Suc i..<Suc i + length xs]"
    by (rule upt_conv_Cons)
  have "writes (fill b i (x # xs)) = writes (fill (put b i x) (Suc i) xs)" by simp
  also have "\<dots> = writes (put b i x) @ [Suc i..<Suc i + length xs]" by (rule Cons.IH)
  also have "\<dots> = writes b @ (i # [Suc i..<Suc i + length xs])" by (simp del: upt_Suc)
  also have "\<dots> = writes b @ [i..<Suc i + length xs]" by (simp only: u)
  finally show ?case by (simp del: upt_Suc)
qed

lemma length_concat_be_encode:
  "length (concat (map (be_encode \<circ> t) xs)) = 2 * length xs"
  by (induction xs) (simp_all add: be_encode_def)

lemma loop_read_keeps_table:
  assumes "cells (request (loop env slave tab nb_reg line)) 1 = 3"
  shows "table (loop env slave tab nb_reg line) = tab"
    and "\<forall>i. Store i \<notin> set (accesses (loop env slave tab nb_reg line))"
  using assms
    reply_read_keeps_table[of "rx_req (receive env \<lparr>cells = req_init env, writes = []\<rparr> slave line)"
      env tab nb_reg
      "of_int (rx_status (receive env \<lparr>cells = req_init env, writes = []\<rparr> slave line))" slave]
  by (auto simp add: loop_def Let_def split: if_splits)

lemma reject_writes:
  "writes (rx_req (reject env slave s c rc)) = writes (reqbuf s) \<or>
   writes (rx_req (reject env slave s c rc)) = writes (reqbuf s) @ [0, 1, 2, 3, 4]"
  by (simp add: reject_def response_exception_eq send_msg_3)

lemma early_return_writes:
  assumes "receive_byte env slave s b = Inl r"
  shows "writes (rx_req r) = writes (reqbuf s) @ [unat (req_index s)] \<or>
         writes (rx_req r) = (writes (reqbuf s) @ [unat (req_index s)]) @ [0, 1, 2, 3, 4]"
proof -
  define Q where "Q x \<longleftrightarrow>
      writes (rx_req x) = writes (reqbuf s) @ [unat (req_index s)] \<or>
      writes (rx_req x) = (writes (reqbuf s) @ [unat (req_index s)]) @ [0, 1, 2, 3, 4]"
    for x :: reception
  have R: "Q (reject env slave s2 c rc)"
    if "reqbuf s2 = put (reqbuf s) (unat (req_index s)) b" for s2 c rc
    using reject_writes[of env slave s2 c rc] that by (simp add: Q_def)
  have Q0: "Q \<lparr>rx_status = st, rx_req = put (reqbuf s) (unat (req_index s)) b, rx_io = io\<rparr>"
    for st io
    by (simp add: Q_def)
  have "Q r"
    using assms
    by (auto simp add: receive_byte_def Let_def simp del: fun_upd_apply cells_put
        split: if_splits step.splits intro!: R Q0)
  then show ?thesis by (simp add: Q_def)
qed

lemma receive_loop_writes:
  assumes "rinv slave s"
  shows "\<exists>k ex. k \<le> 256 \<and> writes (rx_req (receive_loop env slave s line)) = [0..<k] @ ex
           \<and> (ex = [] \<or> ex = [0, 1, 2, 3, 4])"
  using assms
proof (induction line arbitrary: s)
  case Nil
  then have "length (writes (reqbuf s)) \<le> 256"
    "writes (reqbuf s) = [0..<length (writes (reqbuf s))] @ []"
    by (simp_all add: rinv_def)
  then show ?case by (auto simp del: upt_eq_Nil_conv)
next
  case (Cons b line)
  show ?case
  proof (cases "length_to_read s = 0")
    case True
    from Cons.prems have "length (writes (reqbuf s)) \<le> 256"
      "writes (reqbuf s) = [0..<length (writes (reqbuf s))] @ []"
      by (simp_all add: rinv_def)
    then show ?thesis using True by auto
  next
    case False
    define k where "k = length (writes (reqbuf s))"
    have kw: "writes (reqbuf s) = [0..<k]" "unat (req_index s) = k" "k < 256"
      using Cons.prems False u8_nonzero[OF False] by (simp_all add: rinv_def k_def)
    show ?thesis
    proof (cases "receive_byte env slave s b")
      case (Inl r)
      have u: "[0..<k] @ [k] = [0..<Suc k]" by simp
      from early_return_writes[OF Inl]
      have "writes (rx_req r) = [0..<Suc k] @ [] \<or> writes (rx_req r) = [0..<Suc k] @ [0, 1, 2, 3, 4]"
        unfolding kw u by simp
      moreover have "Suc k \<le> 256" using kw(3) by simp
      ultimately have "\<exists>k ex. k \<le> 256 \<and> writes (rx_req r) = [0..<k] @ ex
           \<and> (ex = [] \<or> ex = [0, 1, 2, 3, 4])"
        by blast
      then show ?thesis using False Inl by simp
    next
      case (Inr s')
      have "rinv slave s'" using rinv_step[OF Cons.prems False Inr] .
      from Cons.IH[OF this] show ?thesis using False Inr by simp
    qed
  qed
qed

section \<open>More of the test bench\<close>

lemma bench_cycle:
  assumes "receive bench \<lparr>cells = req_init bench, writes = []\<rparr> 5 (frame @ []) =
             \<lparr>rx_status = (if c then int n else - 1),
              rx_req = fill \<lparr>cells = req_init bench, writes = []\<rparr> 0 frame, rx_io = []\<rparr>"
    and "c" and "0 < n" and "frame \<noteq> []"
  shows "status (loop bench 5 tab nb_reg frame) = int n"
    and "request (loop bench 5 tab nb_reg frame) = fill \<lparr>cells = zeroes, writes = []\<rparr> 0 frame"
    and "serial (loop bench 5 tab nb_reg frame) =
           wire (reply bench tab nb_reg (fill \<lparr>cells = zeroes, writes = []\<rparr> 0 frame) (of_nat n) 5)"
proof -
  have r: "receive bench \<lparr>cells = req_init bench, writes = []\<rparr> 5 frame =
             \<lparr>rx_status = int n,
              rx_req = fill \<lparr>cells = zeroes, writes = []\<rparr> 0 frame, rx_io = []\<rparr>"
    using assms(1,2) by (simp add: bench_simps del: fill.simps)
  show "status (loop bench 5 tab nb_reg frame) = int n"
    and "request (loop bench 5 tab nb_reg frame) = fill \<lparr>cells = zeroes, writes = []\<rparr> 0 frame"
    and "serial (loop bench 5 tab nb_reg frame) =
           wire (reply bench tab nb_reg (fill \<lparr>cells = zeroes, writes = []\<rparr> 0 frame) (of_nat n) 5)"
    using loop_frame[OF r assms(4), of tab nb_reg] assms(3) by (simp_all del: fill.simps)
qed

lemma bench_read_128:
  "status (loop bench 5 tab nb_reg [5, 3, 0, 0, 0, 128, 0x86, 0]) = 8"
  "request (loop bench 5 tab nb_reg [5, 3, 0, 0, 0, 128, 0x86, 0]) =
     fill \<lparr>cells = zeroes, writes = []\<rparr> 0 [5, 3, 0, 0, 0, 128, 0x86, 0]"
  "serial (loop bench 5 tab nb_reg [5, 3, 0, 0, 0, 128, 0x86, 0]) =
     wire (reply bench tab nb_reg (fill \<lparr>cells = zeroes, writes = []\<rparr> 0 [5, 3, 0, 0, 0, 128, 0x86, 0]) 8 5)"
proof -
  have r: "receive bench \<lparr>cells = req_init bench, writes = []\<rparr> 5 ([5, 3, 0, 0, 0, 128, 0x86, 0] @ []) =
     \<lparr>rx_status = (if crc16 bench [5, 3, 0, 0, 0, 128, 0x86, 0] = 0 then int 8 else - 1),
      rx_req = fill \<lparr>cells = req_init bench, writes = []\<rparr> 0 [5, 3, 0, 0, 0, 128, 0x86, 0], rx_io = []\<rparr>"
    using frame_status_read[where a = 5 and slave = 5 and env = bench
        and frame = "[5, 3, 0, 0, 0, 128, 0x86, 0]" and rest = "[]"] by simp
  have c: "crc16 bench [5, 3, 0, 0, 0, 128, 0x86, 0] = 0"
    by (simp add: bench_simps bench_crc16_def xor_sum_def)
  from bench_cycle[OF r c, of tab nb_reg]
  show "status (loop bench 5 tab nb_reg [5, 3, 0, 0, 0, 128, 0x86, 0]) = 8"
    "request (loop bench 5 tab nb_reg [5, 3, 0, 0, 0, 128, 0x86, 0]) =
       fill \<lparr>cells = zeroes, writes = []\<rparr> 0 [5, 3, 0, 0, 0, 128, 0x86, 0]"
    "serial (loop bench 5 tab nb_reg [5, 3, 0, 0, 0, 128, 0x86, 0]) =
       wire (reply bench tab nb_reg (fill \<lparr>cells = zeroes, writes = []\<rparr> 0 [5, 3, 0, 0, 0, 128, 0x86, 0]) 8 5)"
    by (simp_all del: fill.simps)
qed

lemma bench_write_frame:
  assumes "frame = 5 # 16 # b2 # b3 # b4 # b5 # bc # tail"
    and "length tail = unat (2 + bc)" and "7 + unat (2 + bc) \<le> 256"
    and "n = length frame" and "n < 256" and "crc16 bench frame = 0"
  shows "status (loop bench 5 tab nb_reg frame) = int n"
    and "request (loop bench 5 tab nb_reg frame) = fill \<lparr>cells = zeroes, writes = []\<rparr> 0 frame"
    and "serial (loop bench 5 tab nb_reg frame) =
           wire (reply bench tab nb_reg (fill \<lparr>cells = zeroes, writes = []\<rparr> 0 frame) (of_nat n) 5)"
proof -
  have m: "n = length frame mod 256" using assms(4,5) by simp
  have a: "(5 :: u8) = 5 \<or> (5 :: u8) = 0" by simp
  have c: "2 \<le> n \<and> crc16 bench (take n frame) = 0" using assms(1,4,6) by simp
  have ne: "frame \<noteq> []" "0 < n" using assms(1,4) by simp_all
  note r = frame_status_write[OF a assms(2,3,1) m, of bench "\<lparr>cells = req_init bench, writes = []\<rparr>" "[]"]
  from bench_cycle[OF r c ne(2,1), of tab nb_reg]
  show "status (loop bench 5 tab nb_reg frame) = int n"
    and "request (loop bench 5 tab nb_reg frame) = fill \<lparr>cells = zeroes, writes = []\<rparr> 0 frame"
    and "serial (loop bench 5 tab nb_reg frame) =
           wire (reply bench tab nb_reg (fill \<lparr>cells = zeroes, writes = []\<rparr> 0 frame) (of_nat n) 5)"
    by (simp_all del: fill.simps)
qed

lemma frame_cycle_status:
  assumes "a = slave \<or> a = 0"
    and "frame = [a, 3, b2, b3, b4, b5, c1, c2] \<or>
         frame = a # 16 # b2 # b3 # b4 # b5 # bc # tail \<and> length tail = unat (2 + bc)
           \<and> 7 + unat (2 + bc) \<le> 256"
    and "n = length frame mod 256"
    and "c = loop env slave tab nb_reg (frame @ rest)"
  shows "(n < 2 \<or> crc16 env (take n frame) \<noteq> 0 \<longrightarrow>
            status c = - 1 \<and> serial c = [] \<and> table c = tab \<and> accesses c = []) \<and>
         (2 \<le> n \<and> crc16 env (take n frame) = 0 \<longrightarrow> status c = int n) \<and>
         (- 1 :: int) \<notin> {- 1 - int MODBUS_EXCEPTION_ILLEGAL_FUNCTION,
                            - 1 - int MODBUS_EXCEPTION_ILLEGAL_DATA_ADDRESS,
                            - 1 - int MODBUS_EXCEPTION_ILLEGAL_DATA_VALUE} \<and>
         (MODBUS_INFORMATIVE_NOT_FOR_US env \<noteq> 0 \<longrightarrow>
            - 1 \<noteq> - 1 - MODBUS_INFORMATIVE_NOT_FOR_US env) \<and>
         (MODBUS_INFORMATIVE_RX_TIMEOUT env \<noteq> 0 \<longrightarrow>
            - 1 \<noteq> - 1 - MODBUS_INFORMATIVE_RX_TIMEOUT env)"
proof -
  have r: "receive env \<lparr>cells = req_init env, writes = []\<rparr> slave (frame @ rest) =
     \<lparr>rx_status = (if 2 \<le> n \<and> crc16 env (take n frame) = 0 then int n else - 1),
      rx_req = fill \<lparr>cells = req_init env, writes = []\<rparr> 0 frame, rx_io = []\<rparr>"
  proof (cases "frame = [a, 3, b2, b3, b4, b5, c1, c2]")
    case True
    then have "n = 8" using assms(3) by simp
    then show ?thesis
      using frame_status_read[OF assms(1) True, of env _ rest] True by simp
  next
    case False
    with assms(2) have w: "frame = a # 16 # b2 # b3 # b4 # b5 # bc # tail"
      "length tail = unat (2 + bc)" "7 + unat (2 + bc) \<le> 256" by auto
    show ?thesis
      by (rule frame_status_write[OF assms(1) w(2,3,1) assms(3)])
  qed
  have ne: "frame @ rest \<noteq> []" using assms(2) by auto
  show ?thesis
    unfolding assms(4) loop_frame[OF r ne] by auto
qed

lemma funpow_xor_zero: "((XOR) (0 :: u8) ^^ n) x = x"
  by (induction n) simp_all

lemma write_frame_cycle:
  assumes A: "a = slave \<or> a = 0"
    and F: "frame = a # 16 # s_hi # s_lo # c_hi # c_lo # bc # tail"
    and T: "length tail = unat bc + 2"
    and L: "length frame \<le> 256"
    and K: "crc16 env frame = 0"
    and st: "start = be_decode s_hi s_lo" and ct: "count = be_decode c_hi c_lo"
    and E: "unat bc = 2 * count"
    and B: "start + count \<le> unat nb_reg"
    and c: "c = loop env slave tab nb_reg (frame @ rest)"
    and bd: "body = [a, 16, s_hi, s_lo, c_hi, c_lo]"
  shows "status c = int (length frame)"
    and "table c = (\<lambda>x. if start \<le> x \<and> x < start + count
                   then be16 (frame ! (7 + 2 * (x - start))) (frame ! (8 + 2 * (x - start)))
                   else tab x)"
    and "accesses c = map Store [start..<start + count]"
    and "serial c = [Write (body @ [fst (add_crc16 env body), snd (add_crc16 env body)])]"
proof -
  define rq where "rq = fill \<lparr>cells = req_init env, writes = []\<rparr> 0 frame"
  have len: "length frame = 9 + unat bc" using F T by simp
  have bc: "unat bc \<le> 246" using len L E by arith
  have C: "count \<le> 124" using bc E by arith
  have u: "unat (2 + bc) = unat bc + 2"
    using bc by (simp add: unat_word_ariths)
  have T': "length tail = unat (2 + bc)" using T u by simp
  have M: "7 + unat (2 + bc) \<le> 256" using u bc by simp
  have n: "length frame = length frame mod 256" using len bc by simp
  have tk: "take (length frame) frame = frame" by simp
  have rcv: "receive env \<lparr>cells = req_init env, writes = []\<rparr> slave (frame @ rest) =
     \<lparr>rx_status = int (length frame), rx_req = rq, rx_io = []\<rparr>"
    unfolding rq_def
    using frame_status_write[OF A T' M F n, of env "\<lparr>cells = req_init env, writes = []\<rparr>" rest]
      K len
    by (simp only: tk) simp
  have ne: "frame @ rest \<noteq> []" using F by simp
  have pos: "int (length frame) > 0" using F by simp
  note lf = loop_frame[OF rcv ne, of tab nb_reg]
  have d: "status c = int (length frame)"
    "table c = regs (reply env tab nb_reg rq (of_int (int (length frame))) slave)"
    "accesses c = touched (reply env tab nb_reg rq (of_int (int (length frame))) slave)"
    "serial c = wire (reply env tab nb_reg rq (of_int (int (length frame))) slave)"
    unfolding c lf using pos by simp_all
  have cell: "cells rq k = frame ! k" if "k < length frame" for k
    using that unfolding rq_def by (simp add: cells_fill del: fill.simps)
  have c0: "cells rq 0 = a" and c1: "cells rq 1 = 16" and c2: "cells rq 2 = s_hi"
    and c3: "cells rq 3 = s_lo" and c4: "cells rq 4 = c_hi" and c5: "cells rq 5 = c_lo"
    unfolding rq_def F by (simp_all add: cells_fill eval_nat_numeral del: fill.simps)
  have fm: "for_me slave rq"
    using A c0 by (auto simp: for_me_def MODBUS_RTU_SLAVE_def MODBUS_BROADCAST_ADDRESS_def)
  have w: "cells rq 1 \<noteq> 3" using c1 by simp
  have st': "start = be_decode (cells rq 2) (cells rq 3)" using st c2 c3 by simp
  have ct': "count = be_decode (cells rq 4) (cells rq 5)" using ct c4 c5 by simp
  have bd': "body = [cells rq 0, cells rq 1, cells rq 2, cells rq 3, cells rq 4, cells rq 5]"
    using bd c0 c1 c2 c3 c4 c5 by simp
  note r = reply_write[OF fm w st' ct' B C bd', where env = env and tab = tab
      and len = "of_int (int (length frame))"]
  show "status c = int (length frame)" by (rule d(1))
  show "accesses c = map Store [start..<start + count]" using r by (simp add: d)
  show "serial c = [Write (body @ [fst (add_crc16 env body), snd (add_crc16 env body)])]"
    using r by (simp add: d)
  have t: "table c = (\<lambda>x. if start \<le> x \<and> x < start + count
                   then be16 (cells rq (7 + 2 * (x - start))) (cells rq (8 + 2 * (x - start)))
                   else tab x)"
    using r by (simp add: d)
  have "be16 (cells rq (7 + 2 * (x - start))) (cells rq (8 + 2 * (x - start))) =
        be16 (frame ! (7 + 2 * (x - start))) (frame ! (8 + 2 * (x - start)))"
    if "start \<le> x" "x < start + count" for x
  proof -
    have "8 + 2 * (x - start) < length frame" using that len E by arith
    then show ?thesis by (simp add: cell)
  qed
  then show "table c = (\<lambda>x. if start \<le> x \<and> x < start + count
                   then be16 (frame ! (7 + 2 * (x - start))) (frame ! (8 + 2 * (x - start)))
                   else tab x)"
    unfolding t by (auto simp: fun_eq_iff)
qed

section \<open>The claims\<close>

text \<open>
  Claim C1. Every exception response is built by \<^verbatim>\<open>response_exception\<close>: the station byte, the
  request's function code plus 0x80 in eight bits, and one payload byte, the exception code.
  Adding 0x80 is the same as setting the high bit exactly when the function code is below
  0x80; at or above 0x80 the sum wraps and the high bit comes out clear. So the unsupported
  function code 0x99 sent to station 5 is answered with the function byte 0x19.
\<close>

theorem c1_exception_function_byte:
  "bytes (fst (response_exception slave f code rsp)) (unat (snd (response_exception slave f code rsp)))
     = [slave, f + 0x80, of_nat code] \<and>
   (f + 0x80 = f OR 0x80 \<longleftrightarrow> f < 0x80) \<and>
   serial (loop env 5 tab nb_reg [5, 0x99]) =
     [Flush, Write [5, 0x19, 1, fst (add_crc16 env [5, 0x19, 1]), snd (add_crc16 env [5, 0x19, 1])]]"
proof -
  have 1: "bytes (fst (response_exception slave f code rsp))
      (unat (snd (response_exception slave f code rsp))) = [slave, f + 0x80, of_nat code]"
    by (simp add: response_exception_eq bytes_3)
  have 2: "f + 0x80 = f OR 0x80 \<longleftrightarrow> f < 0x80"
    using plus_0x80_low[of f] plus_0x80_high[of f] by blast
  have "serial (loop env 5 tab nb_reg (5 # 0x99 # [])) =
      [Flush, Write ([5, 0x99 + 0x80, 1] @
              [fst (add_crc16 env [5, 0x99 + 0x80, 1]), snd (add_crc16 env [5, 0x99 + 0x80, 1])])]"
    by (rule loop_illegal_function(2)) simp_all
  moreover have "(0x99 :: u8) + 0x80 = 0x19" by simp
  ultimately have 3: "serial (loop env 5 tab nb_reg [5, 0x99]) =
     [Flush, Write [5, 0x19, 1, fst (add_crc16 env [5, 0x19, 1]), snd (add_crc16 env [5, 0x19, 1])]]"
    by (simp only: append.simps)
  from 1 2 3 show ?thesis by blast
qed

theorem c1_exception_function_byte_witness:
  "(3 :: u8) < 0x80 \<and> (3 :: u8) + 0x80 = 3 OR 0x80 \<and>
   bytes (fst (response_exception 5 3 MODBUS_EXCEPTION_ILLEGAL_DATA_ADDRESS
                 \<lparr>cells = zeroes, writes = []\<rparr>))
         (unat (snd (response_exception 5 3 MODBUS_EXCEPTION_ILLEGAL_DATA_ADDRESS
                 \<lparr>cells = zeroes, writes = []\<rparr>))) = [5, 0x83, 2]"
proof -
  note t = c1_exception_function_byte[where slave = 5 and f = 3
      and code = MODBUS_EXCEPTION_ILLEGAL_DATA_ADDRESS
      and rsp = "\<lparr>cells = zeroes, writes = []\<rparr>" and env = bench and tab = tab0 and nb_reg = 0]
  have l: "(3 :: u8) < 0x80" by simp
  with t have "(3 :: u8) + 0x80 = 3 OR 0x80" by blast
  moreover from t have "bytes (fst (response_exception 5 3 MODBUS_EXCEPTION_ILLEGAL_DATA_ADDRESS
                 \<lparr>cells = zeroes, writes = []\<rparr>))
         (unat (snd (response_exception 5 3 MODBUS_EXCEPTION_ILLEGAL_DATA_ADDRESS
                 \<lparr>cells = zeroes, writes = []\<rparr>))) = [5, 3 + 0x80, of_nat MODBUS_EXCEPTION_ILLEGAL_DATA_ADDRESS]"
    by blast
  ultimately show ?thesis using l by simp
qed

theorem c1_function_0x99_counterexample:
  "serial (loop bench 5 tab0 20 [5, 0x99]) = [Flush, Write [5, 0x19, 1, 0x1D, 0]] \<and>
   (0x19 :: u8) \<noteq> 0x99 OR 0x80"
proof -
  have "serial (loop bench 5 tab0 20 (5 # 0x99 # [])) =
      [Flush, Write ([5, 0x99 + 0x80, 1] @
         [fst (add_crc16 bench [5, 0x99 + 0x80, 1]), snd (add_crc16 bench [5, 0x99 + 0x80, 1])])]"
    by (rule loop_illegal_function(2)) simp_all
  then have "serial (loop bench 5 tab0 20 [5, 0x99]) = [Flush, Write [5, 0x19, 1, 0x1D, 0]]"
    by (simp add: bench_simps bench_add_crc16_def xor_sum_def)
  moreover have "(0x19 :: u8) \<noteq> 0x99 OR 0x80" by simp
  ultimately show ?thesis by blast
qed

text \<open>
  Claim C2. Station 5 receives the header of a write request whose byte count is 0xF8: the
  seven bytes read so far, the checksum and the byte count make 257 bytes, more than the 256
  of the largest frame. The line is flushed and an Illegal-Data-Value response (code 3) is
  written, but the status returned is \<open>-1 - MODBUS_EXCEPTION_ILLEGAL_FUNCTION\<close>, the status of an
  unsupported function, not \<open>-1 - MODBUS_EXCEPTION_ILLEGAL_DATA_VALUE\<close>.
\<close>

theorem c2_oversize_status:
  "status (loop env 5 tab nb_reg [5, 0x10, 0, 0, 0, 1, 0xF8])
      = - 1 - int MODBUS_EXCEPTION_ILLEGAL_FUNCTION \<and>
   serial (loop env 5 tab nb_reg [5, 0x10, 0, 0, 0, 1, 0xF8]) =
     [Flush, Write [5, 0x90, of_nat MODBUS_EXCEPTION_ILLEGAL_DATA_VALUE,
                    fst (add_crc16 env [5, 0x90, 3]), snd (add_crc16 env [5, 0x90, 3])]] \<and>
   - 1 - int MODBUS_EXCEPTION_ILLEGAL_FUNCTION \<noteq> - 1 - int MODBUS_EXCEPTION_ILLEGAL_DATA_VALUE"
  by (simp add: loop_def receive_def receive_byte_def reject_def for_me_def
      response_exception_eq send_msg_3 bytes_3 Let_def)

text \<open>
  Claim C3. A request that the receiver has verified (the cycle's status is positive) and whose
  decoded 16-bit big-endian starting address plus decoded 16-bit big-endian register count
  exceeds the declared size of the register table is answered without touching the table: the
  table is unchanged, no register is loaded or stored, and the one frame written to the line is
  the address byte, the function byte with its high bit set, the exception code 2, and the
  checksum. The statuses of a foreign frame and of a timeout are taken not to be positive
  (their two undeclared codes are not negative).
\<close>

theorem c3_out_of_range_exception:
  assumes "0 \<le> MODBUS_INFORMATIVE_NOT_FOR_US env" and "0 \<le> MODBUS_INFORMATIVE_RX_TIMEOUT env"
    and "c = loop env slave tab nb_reg line" and "0 < status c" and "rq = request c"
    and "be_decode (cells rq 2) (cells rq 3) + be_decode (cells rq 4) (cells rq 5) > unat nb_reg"
    and "rsp = [cells rq 0, cells rq 1 OR 0x80, 2]"
  shows "table c = tab \<and> accesses c = [] \<and>
         serial c = [Write (rsp @ [fst (add_crc16 env rsp), snd (add_crc16 env rsp)])]"
proof -
  have v: "verified slave rq"
    using loop_verified(1)[OF assms(1,2) _ assms(3)] assms(4,5,3) by simp
  obtain len where d: "table c = regs (reply env tab nb_reg rq len slave)"
      "accesses c = touched (reply env tab nb_reg rq len slave)"
      "serial c = wire (reply env tab nb_reg rq len slave)"
    using loop_verified(2)[OF assms(1,2) _ assms(3)] assms(4,5,3) by auto
  have f: "cells rq 1 + 0x80 = cells rq 1 OR 0x80"
    using v by (auto simp add: verified_def intro!: plus_0x80_low)
  have "for_me slave rq" using v by (simp add: verified_def)
  from reply_address_exception[OF this assms(6), of env tab len] f
  show ?thesis by (simp add: d assms(7))
qed

theorem c3_out_of_range_exception_witness:
  "0 < status (loop bench 5 tab0 8 [5, 3, 0, 10, 0, 2, 0x0E, 0]) \<and>
   unat (8 :: u16) < be_decode 0 10 + be_decode 0 2 \<and>
   table (loop bench 5 tab0 8 [5, 3, 0, 10, 0, 2, 0x0E, 0]) = tab0 \<and>
   accesses (loop bench 5 tab0 8 [5, 3, 0, 10, 0, 2, 0x0E, 0]) = [] \<and>
   serial (loop bench 5 tab0 8 [5, 3, 0, 10, 0, 2, 0x0E, 0]) = [Write [5, 0x83, 2, 0x84, 0]]"
proof -
  let ?c = "loop bench 5 tab0 8 [5, 3, 0, 10, 0, 2, 0x0E, 0]"
  have s: "status ?c = 8"
    and q: "request ?c = fill \<lparr>cells = zeroes, writes = []\<rparr> 0 [5, 3, 0, 10, 0, 2, 0x0E, 0]"
    by (simp_all add: bench_read_cycle del: fill.simps)
  have "table ?c = tab0 \<and> accesses ?c = [] \<and>
         serial ?c = [Write ([5, 3 OR 0x80, 2] @ [fst (add_crc16 bench [5, 3 OR 0x80, 2]),
                                               snd (add_crc16 bench [5, 3 OR 0x80, 2])])]"
    by (rule c3_out_of_range_exception[where rq = "request ?c" and line = "[5, 3, 0, 10, 0, 2, 0x0E, 0]"
          and slave = 5 and nb_reg = 8 and env = bench and tab = tab0])
      (simp_all add: s q bench_simps be_decode_def)
  then show ?thesis
    by (simp add: s be_decode_def bench_simps bench_add_crc16_def xor_sum_def)
qed

text \<open>
  Claim C4. A line whose first byte is neither the station's identity nor the broadcast
  address 0 never makes the slave write: with a second byte on the line the receiver flushes
  and returns the not-for-this-station status, with the table untouched; with the first byte
  alone it times out, and nothing is written either. The dispatcher, handed a buffer with such
  an address byte, returns at once: no register access, nothing written.
\<close>

theorem c4_foreign_frame_silent:
  assumes "a \<noteq> slave" and "a \<noteq> 0"
  shows "status (loop env slave tab nb_reg (a # f # rest))
           = - 1 - MODBUS_INFORMATIVE_NOT_FOR_US env \<and>
         serial (loop env slave tab nb_reg (a # f # rest)) = [Flush] \<and>
         table (loop env slave tab nb_reg (a # f # rest)) = tab \<and>
         serial (loop env slave tab nb_reg [a]) = [] \<and>
         (cells rq 0 = a \<longrightarrow>
            reply env tab nb_reg rq len slave = \<lparr>regs = tab, touched = [], wire = []\<rparr>)"
  using loop_foreign[OF assms, of env tab nb_reg] reply_foreign[of rq slave env tab nb_reg len] assms
  by simp

theorem c4_foreign_frame_silent_witness:
  "(9 :: u8) \<noteq> 5 \<and> (9 :: u8) \<noteq> 0 \<and>
   status (loop bench 5 tab0 20 [9, 3, 0, 10, 0, 2, 2, 0]) = - 6 \<and>
   serial (loop bench 5 tab0 20 [9, 3, 0, 10, 0, 2, 2, 0]) = [Flush] \<and>
   table (loop bench 5 tab0 20 [9, 3, 0, 10, 0, 2, 2, 0]) = tab0"
proof -
  have h: "(9 :: u8) \<noteq> 5" "(9 :: u8) \<noteq> 0" by simp_all
  note t = c4_foreign_frame_silent[where a = 9 and slave = 5 and env = bench and tab = tab0
      and nb_reg = 20 and f = 3 and rest = "[0, 10, 0, 2, 2, 0]"
      and rq = "\<lparr>cells = zeroes, writes = []\<rparr>" and len = 0, OF h]
  from t have "status (loop bench 5 tab0 20 [9, 3, 0, 10, 0, 2, 2, 0])
           = - 1 - MODBUS_INFORMATIVE_NOT_FOR_US bench"
    and "serial (loop bench 5 tab0 20 [9, 3, 0, 10, 0, 2, 2, 0]) = [Flush]"
    and "table (loop bench 5 tab0 20 [9, 3, 0, 10, 0, 2, 2, 0]) = tab0"
    by blast+
  then show ?thesis using h by (simp add: bench_simps)
qed

text \<open>
  Claim C5. \<^verbatim>\<open>check_integrity\<close> takes the buffer and an 8-bit byte count: a count below 2, or
  a checksum over that many bytes that is not zero, gives -1, and otherwise the count is
  returned. A complete frame is a read request of 8 bytes, or a write request of 7 bytes plus
  its byte count and the checksum, at most 256 bytes in all. If its checksum does not
  validate, the cycle returns -1, writes nothing to the line and leaves the table untouched.
  If its checksum validates and the frame has at most 255 bytes, the cycle returns the length
  of the frame, checksum included. The status -1 differs from the three exception statuses,
  and from the not-for-us and timeout statuses whenever their undeclared codes are not zero.
  The bound of 255 bytes is needed: the byte count \<^verbatim>\<open>req_index\<close> and the parameter
  \<^verbatim>\<open>msg_length\<close> are eight bits wide, so after the 256th byte of a frame the count is 0 and
  the frame is rejected with -1 whatever its checksum.
\<close>

theorem c5_checksum_gate:
  assumes "a = slave \<or> a = 0"
    and "frame = [a, 3, b2, b3, b4, b5, c1, c2] \<or>
         frame = a # 16 # b2 # b3 # b4 # b5 # bc # tail \<and> length tail = unat (2 + bc)
           \<and> 7 + unat (2 + bc) \<le> 256"
    and "c = loop env slave tab nb_reg (frame @ rest)"
  shows "(unat len < 2 \<or> crc16 env (bytes msg (unat len)) \<noteq> 0 \<longrightarrow>
            check_integrity env msg len = - 1) \<and>
         (2 \<le> unat len \<and> crc16 env (bytes msg (unat len)) = 0 \<longrightarrow>
            check_integrity env msg len = int (unat len)) \<and>
         (length frame < 2 \<or> crc16 env frame \<noteq> 0 \<longrightarrow>
            status c = - 1 \<and> serial c = [] \<and> table c = tab \<and> accesses c = []) \<and>
         (crc16 env frame = 0 \<and> length frame \<le> 255 \<longrightarrow> status c = int (length frame)) \<and>
         (- 1 :: int) \<notin> {- 1 - int MODBUS_EXCEPTION_ILLEGAL_FUNCTION,
                            - 1 - int MODBUS_EXCEPTION_ILLEGAL_DATA_ADDRESS,
                            - 1 - int MODBUS_EXCEPTION_ILLEGAL_DATA_VALUE} \<and>
         (MODBUS_INFORMATIVE_NOT_FOR_US env \<noteq> 0 \<longrightarrow>
            - 1 \<noteq> - 1 - MODBUS_INFORMATIVE_NOT_FOR_US env) \<and>
         (MODBUS_INFORMATIVE_RX_TIMEOUT env \<noteq> 0 \<longrightarrow>
            - 1 \<noteq> - 1 - MODBUS_INFORMATIVE_RX_TIMEOUT env)"
proof -
  define n where "n = length frame mod 256"
  note g = frame_cycle_status[OF assms(1,2) n_def assms(3)]
  have len: "7 \<le> length frame" "length frame \<le> 256"
    using assms(2) by auto
  have bad: "status c = - 1 \<and> serial c = [] \<and> table c = tab \<and> accesses c = []"
    if "crc16 env frame \<noteq> 0"
  proof (cases "length frame = 256")
    case True
    then have "n < 2" by (simp add: n_def)
    with g show ?thesis by blast
  next
    case False
    with len have "n = length frame" by (simp add: n_def)
    then have "crc16 env (take n frame) \<noteq> 0" using that by simp
    with g show ?thesis by blast
  qed
  have good: "status c = int (length frame)"
    if "crc16 env frame = 0" "length frame \<le> 255"
  proof -
    from that(2) have "n = length frame" by (simp add: n_def)
    then have "2 \<le> n \<and> crc16 env (take n frame) = 0" using that(1) len by simp
    with g have "status c = int n" by blast
    then show ?thesis using \<open>n = length frame\<close> by simp
  qed
  have short: "check_integrity env msg len = - 1"
    if "unat len < 2 \<or> crc16 env (bytes msg (unat len)) \<noteq> 0"
    using that by (auto simp add: check_integrity_def)
  have long: "check_integrity env msg len = int (unat len)"
    if "2 \<le> unat len \<and> crc16 env (bytes msg (unat len)) = 0"
    using that by (simp add: check_integrity_def)
  have codes: "(- 1 :: int) \<notin> {- 1 - int MODBUS_EXCEPTION_ILLEGAL_FUNCTION,
                            - 1 - int MODBUS_EXCEPTION_ILLEGAL_DATA_ADDRESS,
                            - 1 - int MODBUS_EXCEPTION_ILLEGAL_DATA_VALUE}"
    using g by blast
  from short long bad good len codes show ?thesis by auto
qed

theorem c5_checksum_gate_witness:
  "(5 = (5 :: u8) \<or> 5 = (0 :: u8)) \<and>
   crc16 bench [5, 3, 0, 10, 0, 2, 0x0E, 0] = 0 \<and>
   length [5, 3, 0, 10, 0, 2, 0x0E, 0 :: u8] \<le> 255 \<and>
   status (loop bench 5 tab0 20 [5, 3, 0, 10, 0, 2, 0x0E, 0]) = 8 \<and>
   crc16 bench [5, 3, 0, 10, 0, 2, 0x0F, 0] \<noteq> 0 \<and>
   status (loop bench 5 tab0 20 [5, 3, 0, 10, 0, 2, 0x0F, 0]) = - 1 \<and>
   serial (loop bench 5 tab0 20 [5, 3, 0, 10, 0, 2, 0x0F, 0]) = [] \<and>
   table (loop bench 5 tab0 20 [5, 3, 0, 10, 0, 2, 0x0F, 0]) = tab0 \<and>
   unat (1 :: u8) < 2 \<and>
   check_integrity bench \<lparr>cells = zeroes, writes = []\<rparr> 1 = - 1 \<and>
   2 \<le> unat (2 :: u8) \<and>
   crc16 bench (bytes \<lparr>cells = zeroes, writes = []\<rparr> (unat (2 :: u8))) = 0 \<and>
   check_integrity bench \<lparr>cells = zeroes, writes = []\<rparr> 2 = 2 \<and>
   (MODBUS_INFORMATIVE_NOT_FOR_US bench \<noteq> 0 \<and> MODBUS_INFORMATIVE_RX_TIMEOUT bench \<noteq> 0)"
proof -
  let ?z = "\<lparr>cells = zeroes, writes = []\<rparr>"
  have g: "crc16 bench [5, 3, 0, 10, 0, 2, 0x0E, 0] = 0"
    and b: "crc16 bench [5, 3, 0, 10, 0, 2, 0x0F, 0] \<noteq> 0"
    by (simp_all add: bench_simps bench_crc16_def xor_sum_def)
  have a: "(5 :: u8) = 5 \<or> (5 :: u8) = 0" by simp
  have l: "length [5, 3, 0, 10, 0, 2, 0x0E, 0 :: u8] \<le> 255" by simp
  have f1: "[5, 3, 0, 10, 0, 2, 0x0E, 0] = [5, 3, 0, 10, 0, 2, 0x0E, 0 :: u8] \<or>
      [5, 3, 0, 10, 0, 2, 0x0E, 0] = 5 # 16 # 0 # 10 # 0 # 2 # (0 :: u8) # [] \<and>
      length ([] :: u8 list) = unat (2 + (0 :: u8)) \<and> 7 + unat (2 + (0 :: u8)) \<le> 256"
    by simp
  have f2: "[5, 3, 0, 10, 0, 2, 0x0F, 0] = [5, 3, 0, 10, 0, 2, 0x0F, 0 :: u8] \<or>
      [5, 3, 0, 10, 0, 2, 0x0F, 0] = 5 # 16 # 0 # 10 # 0 # 2 # (0 :: u8) # [] \<and>
      length ([] :: u8 list) = unat (2 + (0 :: u8)) \<and> 7 + unat (2 + (0 :: u8)) \<le> 256"
    by simp
  have u1: "unat (1 :: u8) < 2" and u2: "2 \<le> unat (2 :: u8)" by simp_all
  have "bytes ?z (unat (2 :: u8)) = [0, 0]"
    by (simp add: bytes_def zeroes_def upt_rec)
  then have k: "crc16 bench (bytes ?z (unat (2 :: u8))) = 0"
    by (simp add: bench_simps bench_crc16_def xor_sum_def)
  have nz: "MODBUS_INFORMATIVE_NOT_FOR_US bench \<noteq> 0 \<and> MODBUS_INFORMATIVE_RX_TIMEOUT bench \<noteq> 0"
    by (simp add: bench_simps)
  note good = c5_checksum_gate[where env = bench and slave = 5 and tab = tab0 and nb_reg = 20
      and rest = "[]" and len = 2 and msg = ?z, OF a f1 refl]
  note bad = c5_checksum_gate[where env = bench and slave = 5 and tab = tab0 and nb_reg = 20
      and rest = "[]" and len = 1 and msg = ?z, OF a f2 refl]
  from good have g1: "crc16 bench [5, 3, 0, 10, 0, 2, 0x0E, 0] = 0 \<and>
      length [5, 3, 0, 10, 0, 2, 0x0E, 0 :: u8] \<le> 255 \<longrightarrow>
      status (loop bench 5 tab0 20 ([5, 3, 0, 10, 0, 2, 0x0E, 0] @ [])) =
      int (length [5, 3, 0, 10, 0, 2, 0x0E, 0 :: u8])"
    and g2: "2 \<le> unat (2 :: u8) \<and> crc16 bench (bytes ?z (unat (2 :: u8))) = 0 \<longrightarrow>
      check_integrity bench ?z 2 = int (unat (2 :: u8))"
    by blast+
  from bad have b1: "length [5, 3, 0, 10, 0, 2, 0x0F, 0 :: u8] < 2 \<or>
      crc16 bench [5, 3, 0, 10, 0, 2, 0x0F, 0] \<noteq> 0 \<longrightarrow>
      status (loop bench 5 tab0 20 ([5, 3, 0, 10, 0, 2, 0x0F, 0] @ [])) = - 1 \<and>
      serial (loop bench 5 tab0 20 ([5, 3, 0, 10, 0, 2, 0x0F, 0] @ [])) = [] \<and>
      table (loop bench 5 tab0 20 ([5, 3, 0, 10, 0, 2, 0x0F, 0] @ [])) = tab0 \<and>
      accesses (loop bench 5 tab0 20 ([5, 3, 0, 10, 0, 2, 0x0F, 0] @ [])) = []"
    and b2: "unat (1 :: u8) < 2 \<or> crc16 bench (bytes ?z (unat (1 :: u8))) \<noteq> 0 \<longrightarrow>
      check_integrity bench ?z 1 = - 1"
    by blast+
  have 1: "status (loop bench 5 tab0 20 [5, 3, 0, 10, 0, 2, 0x0E, 0]) = 8"
    using g1 g l by simp
  have 2: "status (loop bench 5 tab0 20 [5, 3, 0, 10, 0, 2, 0x0F, 0]) = - 1 \<and>
      serial (loop bench 5 tab0 20 [5, 3, 0, 10, 0, 2, 0x0F, 0]) = [] \<and>
      table (loop bench 5 tab0 20 [5, 3, 0, 10, 0, 2, 0x0F, 0]) = tab0"
    using b1 b by simp
  have 3: "check_integrity bench ?z 1 = - 1" using b2 u1 by blast
  have 4: "check_integrity bench ?z 2 = 2" using g2 u2 k by simp
  show ?thesis using g b l 1 2 3 4 u1 u2 k nz by blast
qed

theorem c5_frame_256_counterexample:
  "length (5 # 16 # 0 # 0 # 0 # 0 # 0xF7 # replicate 247 0 @ [0xE2, 0 :: u8]) = 256 \<and>
   crc16 bench (5 # 16 # 0 # 0 # 0 # 0 # 0xF7 # replicate 247 0 @ [0xE2, 0]) = 0 \<and>
   status (loop bench 5 tab0 200 (5 # 16 # 0 # 0 # 0 # 0 # 0xF7 # replicate 247 0 @ [0xE2, 0])) = - 1 \<and>
   status (loop bench 5 tab0 200 (5 # 16 # 0 # 0 # 0 # 0 # 0xF7 # replicate 247 0 @ [0xE2, 0])) \<noteq>
     int (length (5 # 16 # 0 # 0 # 0 # 0 # 0xF7 # replicate 247 0 @ [0xE2, 0 :: u8]))"
proof -
  let ?t = "replicate 247 0 @ [0xE2, 0 :: u8]"
  let ?f = "5 # 16 # 0 # 0 # 0 # 0 # 0xF7 # ?t"
  have l: "length ?f = 256" by simp
  have c: "crc16 bench ?f = 0"
    by (simp add: bench_simps bench_crc16_def xor_sum_def funpow_xor_zero)
  have a: "(5 :: u8) = 5 \<or> (5 :: u8) = 0" by simp
  have t: "length ?t = unat (2 + (0xF7 :: u8))" "7 + unat (2 + (0xF7 :: u8)) \<le> 256"
    by simp_all
  have n: "(0 :: nat) = length ?f mod 256" by simp
  note r = frame_status_write[OF a t refl n, of bench "\<lparr>cells = req_init bench, writes = []\<rparr>" "[]"]
  have "receive bench \<lparr>cells = req_init bench, writes = []\<rparr> 5 ?f =
     \<lparr>rx_status = - 1, rx_req = fill \<lparr>cells = req_init bench, writes = []\<rparr> 0 ?f, rx_io = []\<rparr>"
    using r by (simp del: fill.simps)
  from loop_frame[OF this, of tab0 200] have s: "status (loop bench 5 tab0 200 ?f) = - 1"
    by (simp del: fill.simps)
  have "status (loop bench 5 tab0 200 ?f) \<noteq> int (length ?f)"
    unfolding s l by simp
  with l c s show ?thesis by blast
qed

text \<open>
  Claim C6. A verified read request (function 3) for \<open>count\<close> registers from \<open>start\<close>, with
  \<open>start + count\<close> within the declared table size and \<open>count\<close> at most 125, is answered with the
  address byte, the function byte, one byte equal to \<open>2 * count\<close>, and then the registers
  \<open>start, \<dots>, start + count - 1\<close> in ascending order, each as two bytes, most significant
  first; the checksum follows. The bound on \<open>count\<close> is needed: the response index is eight
  bits wide and the response array has 256 bytes, so a request for 128 registers is answered
  with a frame of five bytes.
\<close>

theorem c6_read_response:
  assumes "0 \<le> MODBUS_INFORMATIVE_NOT_FOR_US env" and "0 \<le> MODBUS_INFORMATIVE_RX_TIMEOUT env"
    and "c = loop env slave tab nb_reg line" and "0 < status c" and "rq = request c"
    and "cells rq 1 = 3"
    and "start = be_decode (cells rq 2) (cells rq 3)"
    and "count = be_decode (cells rq 4) (cells rq 5)"
    and "start + count \<le> unat nb_reg" and "count \<le> 125"
    and "body = [cells rq 0, 3, of_nat (2 * count)] @
                concat (map (\<lambda>i. be_encode (tab i)) [start..<start + count])"
  shows "serial c = [Write (body @ [fst (add_crc16 env body), snd (add_crc16 env body)])] \<and>
         unat (of_nat (2 * count) :: u8) = 2 * count \<and> table c = tab"
proof -
  have v: "verified slave rq"
    using loop_verified(1)[OF assms(1,2) _ assms(3)] assms(4,5,3) by simp
  obtain len where d: "table c = regs (reply env tab nb_reg rq len slave)"
      "serial c = wire (reply env tab nb_reg rq len slave)"
    using loop_verified(2)[OF assms(1,2) _ assms(3)] assms(4,5,3) by auto
  have "for_me slave rq" using v by (simp add: verified_def)
  from reply_read[OF this assms(6,7,8,9,10,11), where env = env and len = len]
  have "serial c = [Write (body @ [fst (add_crc16 env body), snd (add_crc16 env body)])]"
    and "table c = tab"
    by (simp_all add: d)
  moreover have "unat (of_nat (2 * count) :: u8) = (2 * count) mod 256"
    by (simp only: unat_of_nat) simp
  then have "unat (of_nat (2 * count) :: u8) = 2 * count"
    using assms(10) by simp
  ultimately show ?thesis by blast
qed

theorem c6_read_response_witness:
  "0 \<le> MODBUS_INFORMATIVE_NOT_FOR_US bench \<and> 0 \<le> MODBUS_INFORMATIVE_RX_TIMEOUT bench \<and>
   0 < status (loop bench 5 tab0 20 [5, 3, 0, 10, 0, 2, 0x0E, 0]) \<and>
   cells (request (loop bench 5 tab0 20 [5, 3, 0, 10, 0, 2, 0x0E, 0])) 1 = 3 \<and>
   be_decode 0 10 + be_decode 0 2 \<le> unat (20 :: u16) \<and> be_decode 0 2 \<le> 125 \<and>
   serial (loop bench 5 tab0 20 [5, 3, 0, 10, 0, 2, 0x0E, 0]) =
     [Write [5, 3, 4, 0, 0x64, 0, 0xC8, 0xAE, 0]]"
proof -
  let ?c = "loop bench 5 tab0 20 [5, 3, 0, 10, 0, 2, 0x0E, 0]"
  let ?rq = "fill \<lparr>cells = zeroes, writes = []\<rparr> 0 [5, 3, 0, 10, 0, 2, 0x0E, 0]"
  have s: "status ?c = 8" and q: "request ?c = ?rq"
    by (simp_all add: bench_read_cycle del: fill.simps)
  have cs: "cells ?rq 0 = 5" "cells ?rq 1 = 3" "cells ?rq 2 = 0" "cells ?rq 3 = 10"
    "cells ?rq 4 = 0" "cells ?rq 5 = 2"
    by (simp_all add: cells_fill del: fill.simps)
  have n: "0 \<le> MODBUS_INFORMATIVE_NOT_FOR_US bench" "0 \<le> MODBUS_INFORMATIVE_RX_TIMEOUT bench"
    by (simp_all add: bench_simps)
  have p: "0 < status ?c" by (simp add: s)
  have f: "cells (request ?c) 1 = 3" by (simp add: q cells_fill del: fill.simps)
  have st: "10 = be_decode (cells (request ?c) 2) (cells (request ?c) 3)"
    and ct: "2 = be_decode (cells (request ?c) 4) (cells (request ?c) 5)"
    by (simp_all add: q cells_fill be_decode_def del: fill.simps)
  have b: "10 + 2 \<le> unat (20 :: u16)" "(2 :: nat) \<le> 125" by simp_all
  have bd: "[5, 3, 4, 0, 0x64, 0, 0xC8] = [cells (request ?c) 0, 3, of_nat (2 * 2)] @
                concat (map (\<lambda>i. be_encode (tab0 i)) [10..<10 + 2])"
    by (simp add: q cells_fill be_encode_def tab0_def upt_rec del: fill.simps)
  note t = c6_read_response[OF n refl p refl f st ct b bd]
  then have "serial ?c = [Write [5, 3, 4, 0, 0x64, 0, 0xC8, 0xAE, 0]]"
    by (simp add: bench_simps bench_add_crc16_def xor_sum_def)
  then show ?thesis using n p f by (simp add: be_decode_def)
qed

theorem c6_read_128_counterexample:
  "status (loop bench 5 tab0 200 [5, 3, 0, 0, 0, 128, 0x86, 0]) = 8 \<and>
   be_decode 0 0 + be_decode 0 128 \<le> unat (200 :: u16) \<and>
   serial (loop bench 5 tab0 200 [5, 3, 0, 0, 0, 128, 0x86, 0]) \<noteq>
     [Write (([5, 3, of_nat (2 * 128)] @ concat (map (be_encode \<circ> tab0) [0..<128])) @
             [fst (add_crc16 bench ([5, 3, of_nat (2 * 128)] @ concat (map (be_encode \<circ> tab0) [0..<128]))),
              snd (add_crc16 bench ([5, 3, of_nat (2 * 128)] @ concat (map (be_encode \<circ> tab0) [0..<128])))])]"
proof -
  let ?rq = "fill \<lparr>cells = zeroes, writes = []\<rparr> 0 [5, 3, 0, 0, 0, 128, 0x86, 0]"
  have cs: "cells ?rq 0 = 5" "cells ?rq 1 = 3" "cells ?rq 2 = 0" "cells ?rq 3 = 0"
    "cells ?rq 4 = 0" "cells ?rq 5 = 128"
    by (simp_all add: cells_fill del: fill.simps)
  have "\<exists>bs. wire (reply bench tab0 200 ?rq 8 5) = [Write bs] \<and> length bs = 3 + 2"
  proof (rule reply_read_length[where count = 128])
    show "for_me 5 ?rq" by (simp add: for_me_def cs del: fill.simps)
    show "cells ?rq 1 = 3" by (rule cs)
    show "128 = be_decode (cells ?rq 4) (cells ?rq 5)" by (simp add: cs be_decode_def del: fill.simps)
    show "be_decode (cells ?rq 2) (cells ?rq 3) + 128 \<le> unat (200 :: u16)"
      by (simp add: cs be_decode_def del: fill.simps)
    show "3 = unat (3 + of_nat (2 * 128) :: u8)" by simp
    show "(3 :: nat) \<le> 254" by simp
  qed
  then obtain bs where bs: "serial (loop bench 5 tab0 200 [5, 3, 0, 0, 0, 128, 0x86, 0]) = [Write bs]"
    "length bs = 5"
    by (auto simp add: bench_read_128(3) simp del: fill.simps)
  have "length (([5, 3, of_nat (2 * 128)] @ concat (map (be_encode \<circ> tab0) [0..<128])) @
             [fst (add_crc16 bench ([5, 3, of_nat (2 * 128)] @ concat (map (be_encode \<circ> tab0) [0..<128]))),
              snd (add_crc16 bench ([5, 3, of_nat (2 * 128)] @ concat (map (be_encode \<circ> tab0) [0..<128])))])
        = 261"
    by (simp add: length_concat_be_encode)
  with bs have "serial (loop bench 5 tab0 200 [5, 3, 0, 0, 0, 128, 0x86, 0]) \<noteq>
     [Write (([5, 3, of_nat (2 * 128)] @ concat (map (be_encode \<circ> tab0) [0..<128])) @
             [fst (add_crc16 bench ([5, 3, of_nat (2 * 128)] @ concat (map (be_encode \<circ> tab0) [0..<128]))),
              snd (add_crc16 bench ([5, 3, of_nat (2 * 128)] @ concat (map (be_encode \<circ> tab0) [0..<128])))])]"
    by auto
  moreover have "be_decode 0 0 + be_decode 0 128 \<le> unat (200 :: u16)" by (simp add: be_decode_def)
  ultimately show ?thesis using bench_read_128(1)[of tab0 200] by blast
qed

text \<open>
  Claim C7. A valid write request (function 16) is a frame addressed to the station or to all
  stations, of at most 256 bytes: address, function, start (two bytes), count (two bytes), a
  byte count equal to twice the count, that many data bytes, and a checksum that validates.
  If \<open>start + count\<close> is within the declared table size, the cycle returns the length of the
  frame and leaves in the table, at each index \<open>i\<close> from \<open>start\<close> to \<open>start + count - 1\<close>, the
  16-bit big-endian value of the two bytes of the frame at offset \<open>6 + 2 * (i - start)\<close> from
  the function byte, which are data bytes of the request; every other index is unchanged; the
  stores are made in ascending order; and the response is the address and function bytes and
  the four bytes that follow them in the request, then the checksum.
\<close>

theorem c7_write_registers:
  assumes "a = slave \<or> a = 0"
    and "frame = a # 16 # s_hi # s_lo # c_hi # c_lo # bc # tail"
    and "length tail = unat bc + 2"
    and "length frame \<le> 256"
    and "crc16 env frame = 0"
    and "start = be_decode s_hi s_lo" and "count = be_decode c_hi c_lo"
    and "unat bc = 2 * count"
    and "start + count \<le> unat nb_reg"
    and "c = loop env slave tab nb_reg (frame @ rest)"
    and "body = [a, 16, s_hi, s_lo, c_hi, c_lo]"
  shows "status c = int (length frame) \<and>
         (\<forall>i. start \<le> i \<and> i < start + count \<longrightarrow>
            unat (table c i) = be_decode (frame ! (1 + 6 + 2 * (i - start)))
                                         (frame ! (1 + 6 + 2 * (i - start) + 1))) \<and>
         (\<forall>i. \<not> (start \<le> i \<and> i < start + count) \<longrightarrow> table c i = tab i) \<and>
         accesses c = map Store [start..<start + count] \<and>
         serial c = [Write (body @ [fst (add_crc16 env body), snd (add_crc16 env body)])]"
proof -
  note w = write_frame_cycle[OF assms]
  have e: "1 + 6 + 2 * k = 7 + 2 * k" "1 + 6 + 2 * k + 1 = 8 + 2 * k" for k :: nat by simp_all
  show ?thesis
    using w(1,3,4) by (simp add: w(2) unat_be16 e)
qed

theorem c7_write_registers_witness:
  "(5 = (5 :: u8) \<or> 5 = (0 :: u8)) \<and>
   length [0x12, 0x34, 0x56, 0x78, 0x11, 0 :: u8] = unat (4 :: u8) + 2 \<and>
   length [5, 0x10, 0, 10, 0, 2, 4, 0x12, 0x34, 0x56, 0x78, 0x11, 0 :: u8] \<le> 256 \<and>
   crc16 bench [5, 0x10, 0, 10, 0, 2, 4, 0x12, 0x34, 0x56, 0x78, 0x11, 0] = 0 \<and>
   unat (4 :: u8) = 2 * be_decode 0 2 \<and>
   be_decode 0 10 + be_decode 0 2 \<le> unat (20 :: u16) \<and>
   status (loop bench 5 tab0 20 [5, 0x10, 0, 10, 0, 2, 4, 0x12, 0x34, 0x56, 0x78, 0x11, 0]) = 13 \<and>
   unat (table (loop bench 5 tab0 20 [5, 0x10, 0, 10, 0, 2, 4, 0x12, 0x34, 0x56, 0x78, 0x11, 0]) 10) = 0x1234 \<and>
   unat (table (loop bench 5 tab0 20 [5, 0x10, 0, 10, 0, 2, 4, 0x12, 0x34, 0x56, 0x78, 0x11, 0]) 11) = 0x5678 \<and>
   table (loop bench 5 tab0 20 [5, 0x10, 0, 10, 0, 2, 4, 0x12, 0x34, 0x56, 0x78, 0x11, 0]) 12 = tab0 12 \<and>
   accesses (loop bench 5 tab0 20 [5, 0x10, 0, 10, 0, 2, 4, 0x12, 0x34, 0x56, 0x78, 0x11, 0]) =
     [Store 10, Store 11] \<and>
   serial (loop bench 5 tab0 20 [5, 0x10, 0, 10, 0, 2, 4, 0x12, 0x34, 0x56, 0x78, 0x11, 0]) =
     [Write [5, 0x10, 0, 10, 0, 2, 0x1D, 0]]"
proof -
  let ?f = "[5, 0x10, 0, 10, 0, 2, 4, 0x12, 0x34, 0x56, 0x78, 0x11, 0] :: u8 list"
  let ?c = "loop bench 5 tab0 20 ?f"
  have a: "(5 :: u8) = 5 \<or> (5 :: u8) = 0" by simp
  have t: "length [0x12, 0x34, 0x56, 0x78, 0x11, 0 :: u8] = unat (4 :: u8) + 2" by simp
  have l: "length ?f \<le> 256" by simp
  have k: "crc16 bench ?f = 0" by (simp add: bench_simps bench_crc16_def xor_sum_def)
  have st: "10 = be_decode 0 10" and ct: "2 = be_decode 0 2" by (simp_all add: be_decode_def)
  have e: "unat (4 :: u8) = 2 * 2" by simp
  have b: "10 + 2 \<le> unat (20 :: u16)" by simp
  have c: "?c = loop bench 5 tab0 20 (?f @ [])" by simp
  note w = c7_write_registers[where rest = "[]", OF a refl t l k st ct e b c refl]
  from w have s: "status ?c = int (length ?f)"
    and in_range: "\<forall>i. 10 \<le> i \<and> i < 10 + 2 \<longrightarrow>
      unat (table ?c i) = be_decode (?f ! (1 + 6 + 2 * (i - 10))) (?f ! (1 + 6 + 2 * (i - 10) + 1))"
    and out_range: "\<forall>i. \<not> (10 \<le> i \<and> i < 10 + 2) \<longrightarrow> table ?c i = tab0 i"
    and acc: "accesses ?c = map Store [10..<10 + 2]"
    and ser: "serial ?c = [Write ([5, 0x10, 0, 10, 0, 2] @
        [fst (add_crc16 bench [5, 0x10, 0, 10, 0, 2]), snd (add_crc16 bench [5, 0x10, 0, 10, 0, 2])])]"
    by blast+
  have s13: "status ?c = 13" using s by simp
  from in_range[THEN spec, of 10]
  have r10: "unat (table ?c 10) = 0x1234" by (simp add: be_decode_def)
  from in_range[THEN spec, of 11]
  have r11: "unat (table ?c 11) = 0x5678" by (simp add: be_decode_def)
  from out_range[THEN spec, of 12] have r12: "table ?c 12 = tab0 12" by simp
  have "[10..<10 + 2] = [10, 11 :: nat]" by (simp add: upt_rec)
  with acc have ac: "accesses ?c = [Store 10, Store 11]" by simp
  from ser have sr: "serial ?c = [Write [5, 0x10, 0, 10, 0, 2, 0x1D, 0]]"
    by (simp add: bench_simps bench_add_crc16_def xor_sum_def)
  have h: "unat (4 :: u8) = 2 * be_decode 0 2" "be_decode 0 10 + be_decode 0 2 \<le> unat (20 :: u16)"
    by (simp_all add: be_decode_def)
  show ?thesis using a t l k h s13 r10 r11 r12 ac sr by blast
qed

text \<open>
  Claim C8. A frame whose function code is neither 3 nor 16. If its address byte is the
  station's identity or 0, the line is flushed, an Illegal-Function response (station byte,
  function code plus 0x80, code 1, checksum) is written and the status is
  \<open>-1 - MODBUS_EXCEPTION_ILLEGAL_FUNCTION\<close>. If its address byte is neither, the address filter
  comes first: the line is flushed, nothing is written, and the status is the
  not-for-this-station status \<open>-1 - MODBUS_INFORMATIVE_NOT_FOR_US\<close>, not -1.
\<close>

theorem c8_unsupported_function:
  assumes "f \<noteq> 3" and "f \<noteq> 16"
  shows "(a = slave \<or> a = 0 \<longrightarrow>
            status (loop env slave tab nb_reg (a # f # rest))
              = - 1 - int MODBUS_EXCEPTION_ILLEGAL_FUNCTION \<and>
            serial (loop env slave tab nb_reg (a # f # rest)) =
              [Flush, Write ([slave, f + 0x80, of_nat MODBUS_EXCEPTION_ILLEGAL_FUNCTION] @
                 [fst (add_crc16 env [slave, f + 0x80, 1]),
                  snd (add_crc16 env [slave, f + 0x80, 1])])] \<and>
            table (loop env slave tab nb_reg (a # f # rest)) = tab) \<and>
         (a \<noteq> slave \<and> a \<noteq> 0 \<longrightarrow>
            status (loop env slave tab nb_reg (a # f # rest))
              = - 1 - MODBUS_INFORMATIVE_NOT_FOR_US env \<and>
            serial (loop env slave tab nb_reg (a # f # rest)) = [Flush] \<and>
            table (loop env slave tab nb_reg (a # f # rest)) = tab)"
proof (cases "a = slave \<or> a = 0")
  case True
  from loop_illegal_function[OF assms True, of env tab nb_reg rest] True
  show ?thesis by auto
next
  case False
  then have "a \<noteq> slave" "a \<noteq> 0" by simp_all
  from loop_foreign(1-3)[OF this, of env tab nb_reg f rest] False
  show ?thesis by simp
qed

theorem c8_unsupported_function_witness:
  "(0x99 :: u8) \<noteq> 3 \<and> (0x99 :: u8) \<noteq> 16 \<and>
   status (loop bench 5 tab0 20 [5, 0x99]) = - 2 \<and>
   serial (loop bench 5 tab0 20 [5, 0x99]) = [Flush, Write [5, 0x19, 1, 0x1D, 0]] \<and>
   status (loop bench 5 tab0 20 [9, 0x99]) = - 6 \<and>
   serial (loop bench 5 tab0 20 [9, 0x99]) = [Flush]"
proof -
  have h: "(0x99 :: u8) \<noteq> 3" "(0x99 :: u8) \<noteq> 16" by simp_all
  note mine = c8_unsupported_function[where f = "0x99" and a = 5 and slave = 5 and env = bench
      and tab = tab0 and nb_reg = 20 and rest = "[]", OF h]
  note other = c8_unsupported_function[where f = "0x99" and a = 9 and slave = 5 and env = bench
      and tab = tab0 and nb_reg = 20 and rest = "[]", OF h]
  from mine have "status (loop bench 5 tab0 20 [5, 0x99]) = - 2"
    and "serial (loop bench 5 tab0 20 [5, 0x99]) = [Flush, Write [5, 0x19, 1, 0x1D, 0]]"
    by (simp_all add: bench_simps bench_add_crc16_def xor_sum_def)
  moreover from other have "status (loop bench 5 tab0 20 [9, 0x99]) = - 6"
    and "serial (loop bench 5 tab0 20 [9, 0x99]) = [Flush]"
    by (simp_all add: bench_simps)
  ultimately show ?thesis using h by blast
qed

theorem c8_foreign_status_counterexample:
  "status (loop bench 5 tab0 20 [9, 0x99]) = - 6 \<and> (- 6 :: int) \<noteq> - 1"
proof -
  have "status (loop bench 5 tab0 20 (9 # 0x99 # [])) = - 1 - MODBUS_INFORMATIVE_NOT_FOR_US bench"
    by (rule loop_foreign(1)) simp_all
  then show ?thesis by (simp add: bench_simps)
qed

text \<open>
  Claim C9. Every store into the 256-byte request array during a cycle is at an index below
  256, whatever arrives on the line. More precisely the bytes read from the line are stored at
  the indices \<open>0, 1, \<dots>, k - 1\<close> in this order for some \<open>k\<close> of at most 256, so that the 8-bit index
  never wraps before a store, and the only other stores are the five bytes of an exception
  response, at the indices 0 to 4.
\<close>

theorem c9_request_writes_in_bounds:
  "(\<forall>i \<in> set (writes (request (loop env slave tab nb_reg line))). i < 256) \<and>
   (\<exists>k ex. k \<le> 256 \<and> writes (request (loop env slave tab nb_reg line)) = [0..<k] @ ex
        \<and> (ex = [] \<or> ex = [0, 1, 2, 3, 4]))"
proof -
  define rq where "rq = \<lparr>cells = req_init env, writes = []\<rparr>"
  have e: "\<exists>k ex. k \<le> 256 \<and> writes (request (loop env slave tab nb_reg line)) = [0..<k] @ ex
        \<and> (ex = [] \<or> ex = [0, 1, 2, 3, 4])"
  proof (cases "line = []")
    case True
    have "(0::nat) \<le> 256 \<and> writes rq = [0..<0] @ [] \<and> ([] = ([] :: nat list) \<or> [] = [0, 1, 2, 3, 4 :: nat])"
      by (simp add: rq_def)
    then show ?thesis using True unfolding loop_def Let_def rq_def[symmetric] by (simp del: upt.simps)
  next
    case False
    have "rinv slave \<lparr>step = STEP_FUNCTION, length_to_read = 2, req_index = 0, func = 0, reqbuf = rq\<rparr>"
      by (rule rinv_initial) (simp add: rq_def)
    from receive_loop_writes[OF this, of env line]
    have "\<exists>k ex. k \<le> 256 \<and> writes (rx_req (receive env rq slave line)) = [0..<k] @ ex
           \<and> (ex = [] \<or> ex = [0, 1, 2, 3, 4])"
      by (simp add: receive_def)
    then show ?thesis using False by (simp add: loop_def Let_def rq_def)
  qed
  then obtain k ex where k: "k \<le> 256"
    "writes (request (loop env slave tab nb_reg line)) = [0..<k] @ ex"
    "ex = [] \<or> ex = [0, 1, 2, 3, 4]" by blast
  have "\<forall>i \<in> set (writes (request (loop env slave tab nb_reg line))). i < 256"
    using k by auto
  with e show ?thesis by blast
qed

theorem c9_request_writes_in_bounds_witness:
  "7 \<in> set (writes (request (loop bench 5 tab0 20 [5, 3, 0, 10, 0, 2, 0x0E, 0]))) \<and> (7 :: nat) < 256"
proof -
  have "request (loop bench 5 tab0 20 [5, 3, 0, 10, 0, 2, 0x0E, 0]) =
      fill \<lparr>cells = zeroes, writes = []\<rparr> 0 [5, 3, 0, 10, 0, 2, 0x0E, 0]"
    by (simp add: bench_read_cycle del: fill.simps)
  then have m: "7 \<in> set (writes (request (loop bench 5 tab0 20 [5, 3, 0, 10, 0, 2, 0x0E, 0])))"
    by (simp add: writes_fill del: fill.simps)
  from c9_request_writes_in_bounds[of bench 5 tab0 20 "[5, 3, 0, 10, 0, 2, 0x0E, 0]"] m
  show ?thesis by blast
qed

text \<open>
  Claim C10. A cycle whose request carries the function code 3 leaves the register table as it
  was and stores into no register; the stores are all in the branch of the other function code.
\<close>

theorem c10_read_keeps_table:
  assumes "cells (request (loop env slave tab nb_reg line)) 1 = 3"
  shows "table (loop env slave tab nb_reg line) = tab \<and>
         (\<forall>i. Store i \<notin> set (accesses (loop env slave tab nb_reg line)))"
  using loop_read_keeps_table[OF assms] by blast

theorem c10_read_keeps_table_witness:
  "cells (request (loop bench 5 tab0 20 [5, 3, 0, 10, 0, 2, 0x0E, 0])) 1 = 3 \<and>
   table (loop bench 5 tab0 20 [5, 3, 0, 10, 0, 2, 0x0E, 0]) = tab0"
proof -
  let ?c = "loop bench 5 tab0 20 [5, 3, 0, 10, 0, 2, 0x0E, 0]"
  have "request ?c = fill \<lparr>cells = zeroes, writes = []\<rparr> 0 [5, 3, 0, 10, 0, 2, 0x0E, 0]"
    by (simp add: bench_read_cycle del: fill.simps)
  then have f: "cells (request ?c) 1 = 3"
    by (simp add: cells_fill del: fill.simps)
  from c10_read_keeps_table[OF f] f show ?thesis by blast
qed

end
